theory Spec2Isabelle
  imports Main "HOL-Library.Word" "HOL-Library.Signed_Division"
begin

unbundle bit_operations_syntax

section \<open>Data model of the RTP sender (Sender.cpp)\<close>

type_synonym byte = "8 word"

text \<open>Status codes returned by the sender's functions.\<close>

datatype status_t = OK | UNKNOWN_ERROR | ERROR_MALFORMED | ERROR_UNSUPPORTED

text \<open>
  Ways a call can fail to return at all: a \<open>CHECK\<close> macro that aborts the process, and
  a read past the end of the bytes a pointer refers to (undefined behaviour in C++,
  kept apart here so that no theorem silently relies on it).
\<close>

datatype failure = CHECK_FAILED | OUT_OF_BOUNDS

datatype TransportMode = TRANSPORT_UDP | TRANSPORT_TCP_INTERLEAVED | TRANSPORT_TCP

text \<open>
  \<open>ABuffer\<close>: a byte array of fixed capacity, the length of the range in use (the
  sender always sets the range offset to 0) and the integer tag \<open>int32Data\<close>.
\<close>

record ABuffer =
  bdata :: "byte list"
  bsize :: nat
  int32Data :: "32 word"

definition capacity :: "ABuffer \<Rightarrow> nat" where
  "capacity b = length (bdata b)"

text \<open>
  \<open>new ABuffer(n)\<close>: capacity \<open>n\<close>, range \<open>(0, n)\<close>. The bytes of a fresh buffer are
  indeterminate in the source; the sender writes every byte of the range before it
  reads it, and the model fills the array with zeros.
\<close>

definition new_ABuffer :: "nat \<Rightarrow> ABuffer" where
  "new_ABuffer n = \<lparr>bdata = replicate n 0, bsize = n, int32Data = 0\<rparr>"

text \<open>The bytes of the range in use, \<open>data() .. data() + size()\<close>.\<close>

definition contents :: "ABuffer \<Rightarrow> byte list" where
  "contents b = take (bsize b) (bdata b)"

text \<open>\<open>memcpy(dst + off, src, length src)\<close> on an array held as a list.\<close>

definition memcpy :: "byte list \<Rightarrow> nat \<Rightarrow> byte list \<Rightarrow> byte list" where
  "memcpy dst off src = take off dst @ src @ drop (off + length src) dst"

text \<open>
  Modelled from the spec: the big-endian readers \<open>U16_AT\<close> and \<open>U32_AT\<close> of Utils.h,
  which is not among the sources (``explicit big-endian encode/decode helpers operating
  on byte buffers''). The argument is the list of bytes starting at the pointer.
\<close>

definition U16_AT :: "byte list \<Rightarrow> 16 word" where
  "U16_AT p = push_bit 8 (ucast (p ! 0)) OR ucast (p ! 1)"

definition U32_AT :: "byte list \<Rightarrow> 32 word" where
  "U32_AT p = push_bit 24 (ucast (p ! 0)) OR push_bit 16 (ucast (p ! 1))
                OR push_bit 8 (ucast (p ! 2)) OR ucast (p ! 3)"

text \<open>
  The constants and the feature switch of Sender.h, which is not among the sources, are
  parameters of the model.
\<close>

record config =
  ENABLE_RETRANSMISSION :: bool
  kSourceID :: "32 word"
  kMaxHistoryLength :: nat
  kRetransmissionPortOffset :: "32 word"

definition kMaxRTPPacketSize :: nat where
  "kMaxRTPPacketSize = 1500"

definition kMaxNumTSPacketsPerRTPPacket :: nat where
  "kMaxNumTSPacketsPerRTPPacket = (kMaxRTPPacketSize - 12) div 188"

text \<open>
  The fields of \<open>Sender\<close> that the modelled functions read or write. The counters are
  the unsigned 32-bit members of Sender.h and the times its signed 64-bit members.
  \<open>nowReads\<close> is not a member of the class: it counts the calls of
  \<open>ALooper::GetNowUs()\<close> made so far, so that the external clock can be a function of
  the number of the read.
\<close>

record Sender =
  mTSQueue :: ABuffer
  mClientIP :: string
  mTransportMode :: TransportMode
  mRTPChannel :: "32 word"
  mRTCPChannel :: "32 word"
  mRTPPort :: "32 word"
  mRTPSessionID :: "32 word"
  mRTCPSessionID :: "32 word"
  mRTPRetransmissionSessionID :: "32 word"
  mRTCPRetransmissionSessionID :: "32 word"
  mClientRTPPort :: "32 word"
  mClientRTCPPort :: "32 word"
  mFirstOutputBufferReadyTimeUs :: "64 word"
  mFirstOutputBufferSentTimeUs :: "64 word"
  mRTPSeqNo :: "32 word"
  mRTPRetransmissionSeqNo :: "32 word"
  mLastNTPTime :: "64 word"
  mLastRTPTime :: "32 word"
  mNumRTPSent :: "32 word"
  mNumRTPOctetsSent :: "32 word"
  mHistory :: "ABuffer list"
  mHistoryLength :: nat
  nowReads :: nat

type_synonym clock = "nat \<Rightarrow> 64 word"

text \<open>What the sender hands to its collaborators.\<close>

datatype emitted =
    SendRequest "32 word" "byte list"
  | NotifyBinaryData "32 word" "byte list"

fun payloadOf :: "emitted \<Rightarrow> byte list" where
  "payloadOf (SendRequest _ bs) = bs"
| "payloadOf (NotifyBinaryData _ bs) = bs"

text \<open>The constructor: an empty queue buffer of full capacity with the range set to the header.\<close>

definition Sender_new :: Sender where
  "Sender_new =
    \<lparr>mTSQueue = (new_ABuffer (12 + kMaxNumTSPacketsPerRTPPacket * 188))\<lparr>bsize := 12\<rparr>,
     mClientIP = [],
     mTransportMode = TRANSPORT_UDP,
     mRTPChannel = 0, mRTCPChannel = 0, mRTPPort = 0,
     mRTPSessionID = 0, mRTCPSessionID = 0,
     mRTPRetransmissionSessionID = 0, mRTCPRetransmissionSessionID = 0,
     mClientRTPPort = 0, mClientRTCPPort = 0,
     mFirstOutputBufferReadyTimeUs = - 1, mFirstOutputBufferSentTimeUs = - 1,
     mRTPSeqNo = 0, mRTPRetransmissionSeqNo = 0,
     mLastNTPTime = 0, mLastRTPTime = 0,
     mNumRTPSent = 0, mNumRTPOctetsSent = 0,
     mHistory = [], mHistoryLength = 0,
     nowReads = 0\<rparr>"

section \<open>Packetizer: appendTSData and onQueuePackets\<close>

text \<open>\<open>ALooper::GetNowUs()\<close>: the next value of the clock.\<close>

definition GetNowUs :: "clock \<Rightarrow> Sender \<Rightarrow> 64 word \<times> Sender" where
  "GetNowUs clk s = (clk (nowReads s), s\<lparr>nowReads := Suc (nowReads s)\<rparr>)"

text \<open>
  \<open>GetNowNTP\<close>, on the value its own clock read returned; all of its arithmetic is
  unsigned 64-bit.
\<close>

definition GetNowNTP :: "64 word \<Rightarrow> 64 word" where
  "GetNowNTP t =
    (let nowUs = t + ((70 * 365 + 17) * 24) * 60 * 60 * 1000000;
         hi = nowUs div 1000000;
         lo = (push_bit 32 1 * (nowUs mod 1000000)) div 1000000
     in push_bit 32 hi OR lo)"

text \<open>
  \<open>uint32_t rtpTime = (nowUs * 9ll) / 100ll\<close>: a signed 64-bit product (wrapping, as
  compiled), a division truncating towards zero, and the conversion to 32 bits.
\<close>

definition rtpTimeOf :: "64 word \<Rightarrow> 32 word" where
  "rtpTimeOf nowUs = word_of_int (sint (nowUs * 9) sdiv 100)"

text \<open>The twelve header bytes written at the start of the queue buffer.\<close>

definition stampHeader :: "config \<Rightarrow> bool \<Rightarrow> 32 word \<Rightarrow> 32 word \<Rightarrow> byte list \<Rightarrow> byte list" where
  "stampHeader cfg timeDiscontinuity seqNo rtpTime rtp =
    rtp[0 := 0x80,
        1 := 33 OR (if timeDiscontinuity then push_bit 7 1 else 0),
        2 := ucast (drop_bit 8 seqNo AND 0xff),
        3 := ucast (seqNo AND 0xff),
        4 := ucast (drop_bit 24 rtpTime),
        5 := ucast (drop_bit 16 rtpTime AND 0xff),
        6 := ucast (drop_bit 8 rtpTime AND 0xff),
        7 := ucast (rtpTime AND 0xff),
        8 := ucast (drop_bit 24 (kSourceID cfg)),
        9 := ucast (drop_bit 16 (kSourceID cfg) AND 0xff),
        10 := ucast (drop_bit 8 (kSourceID cfg) AND 0xff),
        11 := ucast (kSourceID cfg AND 0xff)]"

text \<open>
  The body of \<open>if (flush || mTSQueue->size() == mTSQueue->capacity())\<close> in
  \<open>appendTSData\<close>: stamp the header, advance the counters, hand the packet out, and
  replace or reset the queue buffer.
\<close>

definition appendTSData_flush :: "config \<Rightarrow> clock \<Rightarrow> bool \<Rightarrow> Sender \<Rightarrow> Sender \<times> emitted list" where
  "appendTSData_flush cfg clk timeDiscontinuity s0 =
    (let (nowUs, s1) = GetNowUs clk s0;
         rtpTime = rtpTimeOf nowUs;
         q = mTSQueue s1;
         rtp = stampHeader cfg timeDiscontinuity (mRTPSeqNo s1) rtpTime (bdata q);
         q = q\<lparr>bdata := rtp\<rparr>;
         s2 = s1\<lparr>mTSQueue := q,
                 mRTPSeqNo := mRTPSeqNo s1 + 1,
                 mNumRTPSent := mNumRTPSent s1 + 1,
                 mNumRTPOctetsSent := mNumRTPOctetsSent s1 + of_nat (bsize q - 12),
                 mLastRTPTime := rtpTime\<rparr>;
         (ntpUs, s3) = GetNowUs clk s2;
         s4 = s3\<lparr>mLastNTPTime := GetNowNTP ntpUs\<rparr>;
         out = (if mTransportMode s4 = TRANSPORT_TCP_INTERLEAVED
                then NotifyBinaryData (mRTPChannel s4) (take (bsize q) rtp)
                else SendRequest (mRTPSessionID s4) (take (bsize q) rtp));
         s5 = (if ENABLE_RETRANSMISSION cfg
               then (let q' = q\<lparr>int32Data := mRTPSeqNo s4 - 1\<rparr>;
                         history = mHistory s4 @ [q'];
                         len = mHistoryLength s4 + 1
                     in if len > kMaxHistoryLength cfg
                        then s4\<lparr>mTSQueue := hd history, mHistory := tl history,
                                mHistoryLength := len - 1\<rparr>
                        else s4\<lparr>mTSQueue := new_ABuffer (12 + kMaxNumTSPacketsPerRTPPacket * 188),
                                mHistory := history, mHistoryLength := len\<rparr>)
               else s4)
     in (s5\<lparr>mTSQueue := (mTSQueue s5)\<lparr>bsize := 12\<rparr>\<rparr>, [out]))"

text \<open>
  \<open>appendTSData(data, size, timeDiscontinuity, flush)\<close>. \<open>data\<close> is the list of the
  bytes available at the pointer; copying \<open>sz\<close> bytes (the argument \<open>size\<close>) from a shorter list is the
  out-of-bounds read.
\<close>

definition appendTSData ::
  "config \<Rightarrow> clock \<Rightarrow> byte list \<Rightarrow> nat \<Rightarrow> bool \<Rightarrow> bool \<Rightarrow> Sender \<Rightarrow> failure + (Sender \<times> emitted list)" where
  "appendTSData cfg clk data sz timeDiscontinuity flush s =
    (if sz \<noteq> 188 then Inl CHECK_FAILED
     else if \<not> bsize (mTSQueue s) + sz \<le> capacity (mTSQueue s) then Inl CHECK_FAILED
     else if length data < sz then Inl OUT_OF_BOUNDS
     else
       let q = mTSQueue s;
           q = q\<lparr>bdata := memcpy (bdata q) (bsize q) (take sz data), bsize := bsize q + sz\<rparr>;
           s = s\<lparr>mTSQueue := q\<rparr>
       in if flush \<or> bsize (mTSQueue s) = capacity (mTSQueue s)
          then Inr (appendTSData_flush cfg clk timeDiscontinuity s)
          else Inr (s, []))"

text \<open>
  The loop of \<open>onQueuePackets\<close> over the 188-byte packets of a batch, from byte
  \<open>offset\<close> on. The first clock read is \<open>startTimeUs\<close>, which the function never uses.
\<close>

function onQueuePackets_loop ::
  "config \<Rightarrow> clock \<Rightarrow> byte list \<Rightarrow> nat \<Rightarrow> Sender \<Rightarrow> failure + (Sender \<times> emitted list)" where
  "onQueuePackets_loop cfg clk packets offset s =
    (if offset < length packets
     then (let lastTSPacket = (offset + 188 \<ge> length packets)
           in case appendTSData cfg clk (drop offset packets) 188 True lastTSPacket s of
                Inl e \<Rightarrow> Inl e
              | Inr (s', out) \<Rightarrow>
                  (case onQueuePackets_loop cfg clk packets (offset + 188) s' of
                     Inl e \<Rightarrow> Inl e
                   | Inr (s'', out') \<Rightarrow> Inr (s'', out @ out')))
     else Inr (s, []))"
  by pat_completeness auto
termination
  by (relation "measure (\<lambda>(cfg, clk, packets, offset, s). length packets - offset)") auto

declare onQueuePackets_loop.simps [simp del]

definition onQueuePackets ::
  "config \<Rightarrow> clock \<Rightarrow> byte list \<Rightarrow> Sender \<Rightarrow> failure + (Sender \<times> emitted list)" where
  "onQueuePackets cfg clk packets s =
    (let (startTimeUs, s) = GetNowUs clk s
     in onQueuePackets_loop cfg clk packets 0 s)"

text \<open>
  The looper delivers the posted \<open>kWhatQueuePackets\<close> messages one at a time, in the
  order given: \<open>onMessageReceived\<close> calls \<open>onQueuePackets\<close> on the packets of each.
\<close>

fun deliverQueuePackets ::
  "config \<Rightarrow> clock \<Rightarrow> byte list list \<Rightarrow> Sender \<Rightarrow> failure + (Sender \<times> emitted list)" where
  "deliverQueuePackets cfg clk [] s = Inr (s, [])"
| "deliverQueuePackets cfg clk (packets # rest) s =
    (case onQueuePackets cfg clk packets s of
       Inl e \<Rightarrow> Inl e
     | Inr (s', out) \<Rightarrow>
         (case deliverQueuePackets cfg clk rest s' of
            Inl e \<Rightarrow> Inl e
          | Inr (s'', out') \<Rightarrow> Inr (s'', out @ out')))"

section \<open>Pacing: queuePackets\<close>

text \<open>
  The message \<open>queuePackets\<close> posts to the sender's own looper: the delay handed to
  \<open>post\<close>, the packets, and the three values stored in the packets' meta data.
  \<open>queuePackets\<close> does not run \<open>onQueuePackets\<close> itself; the looper does, when it
  delivers the message.
\<close>

record QueuePacketsMsg =
  postDelayUs :: "64 word"
  msgPackets :: "byte list"
  metaTimeUs :: "64 word"
  metaWhenUs :: "64 word"
  metaDelayUs :: "64 word"

definition queuePackets :: "clock \<Rightarrow> 64 word \<Rightarrow> byte list \<Rightarrow> Sender \<Rightarrow> Sender \<times> QueuePacketsMsg" where
  "queuePackets clk timeUs packets s =
    (if sint (mFirstOutputBufferReadyTimeUs s) < 0
     then (let s = s\<lparr>mFirstOutputBufferReadyTimeUs := timeUs\<rparr>;
               (whenUs, s) = GetNowUs clk s;
               s = s\<lparr>mFirstOutputBufferSentTimeUs := whenUs\<rparr>;
               delayUs = 0
           in (s, \<lparr>postDelayUs = (if sint delayUs > 0 then delayUs else 0), msgPackets = packets,
                    metaTimeUs = timeUs, metaWhenUs = whenUs, metaDelayUs = delayUs\<rparr>))
     else (let (nowUs, s) = GetNowUs clk s;
               whenUs = (timeUs - mFirstOutputBufferReadyTimeUs s) + mFirstOutputBufferSentTimeUs s;
               delayUs = whenUs - nowUs
           in (s, \<lparr>postDelayUs = (if sint delayUs > 0 then delayUs else 0), msgPackets = packets,
                    metaTimeUs = timeUs, metaWhenUs = whenUs, metaDelayUs = delayUs\<rparr>)))"

section \<open>Retransmission: parseTSFB\<close>

text \<open>
  The inner \<open>for (size_t i = 0; i < 16; ++i)\<close> of \<open>parseTSFB\<close>: clears every bit of
  \<open>blp\<close> that names the sequence number of the buffer and reports whether there was one.
  The comparison is made on \<open>size_t\<close> values, \<open>(seqNo + i + 1) & 0xffff\<close>.
\<close>

definition matchBits :: "16 word \<Rightarrow> 16 word \<Rightarrow> 16 word \<Rightarrow> 16 word \<times> bool" where
  "matchBits seqNo bufferSeqNo blp =
    fold (\<lambda>i (blp, retransmit).
            if bit blp i \<and> unat bufferSeqNo = (unat seqNo + i + 1) mod 65536
            then (blp AND NOT (push_bit i 1), True)
            else (blp, retransmit))
         [0..<16] (blp, False)"

text \<open>
  The retransmission packet built for a history buffer: its first 12 bytes with bytes 2
  and 3 overwritten by the retransmission counter, the buffer's own sequence number in
  bytes 12 and 13, and the rest of the buffer from byte 14 on.
\<close>

definition retransRTP :: "32 word \<Rightarrow> 16 word \<Rightarrow> ABuffer \<Rightarrow> byte list" where
  "retransRTP retransmissionSeqNo bufferSeqNo buffer =
    (let rtp = replicate (2 + bsize buffer) 0;
         rtp = memcpy rtp 0 (take 12 (bdata buffer));
         rtp = rtp[2 := ucast (drop_bit 8 retransmissionSeqNo AND 0xff),
                   3 := ucast (retransmissionSeqNo AND 0xff),
                   12 := ucast (drop_bit 8 bufferSeqNo AND 0xff),
                   13 := ucast (bufferSeqNo AND 0xff)]
     in memcpy rtp 14 (take (bsize buffer - 12) (drop 12 (bdata buffer))))"

text \<open>
  The \<open>while (it != mHistory.end())\<close> loop of \<open>parseTSFB\<close> for one NACK entry, over the
  part of the history not yet visited. It returns the final \<open>blp\<close> and \<open>foundSeqNo\<close>
  (which the source only logs), the sender and the packets sent.
\<close>

fun scanHistory ::
  "16 word \<Rightarrow> ABuffer list \<Rightarrow> 16 word \<Rightarrow> bool \<Rightarrow> Sender \<Rightarrow> 16 word \<times> bool \<times> Sender \<times> emitted list" where
  "scanHistory seqNo [] blp foundSeqNo s = (blp, foundSeqNo, s, [])"
| "scanHistory seqNo (buffer # rest) blp foundSeqNo s =
    (let bufferSeqNo = (ucast (int32Data buffer AND 0xffff) :: 16 word);
         (blp, retransmit) =
           (if bufferSeqNo = seqNo then (blp, True)
            else if blp \<noteq> 0 then matchBits seqNo bufferSeqNo blp
            else (blp, False))
     in if retransmit
        then (let pkt = retransRTP (mRTPRetransmissionSeqNo s) bufferSeqNo buffer;
                  s = s\<lparr>mRTPRetransmissionSeqNo := mRTPRetransmissionSeqNo s + 1\<rparr>;
                  sent = SendRequest (mRTPRetransmissionSessionID s) pkt;
                  foundSeqNo = (if bufferSeqNo = seqNo then True else foundSeqNo)
              in if foundSeqNo \<and> blp = 0
                 then (blp, foundSeqNo, s, [sent])
                 else (case scanHistory seqNo rest blp foundSeqNo s of
                         (blp', found', s', out) \<Rightarrow> (blp', found', s', sent # out)))
        else scanHistory seqNo rest blp foundSeqNo s)"

text \<open>The \<open>for (size_t i = 12; i < size; i += 4)\<close> loop over the NACK entries.\<close>

function parseTSFB_loop :: "byte list \<Rightarrow> nat \<Rightarrow> nat \<Rightarrow> Sender \<Rightarrow> failure + (Sender \<times> emitted list)" where
  "parseTSFB_loop data sz i s =
    (if i < sz
     then (if length data < i + 4 then Inl OUT_OF_BOUNDS
           else (let seqNo = U16_AT (drop i data);
                     blp = U16_AT (drop (i + 2) data)
                 in case scanHistory seqNo (mHistory s) blp False s of
                      (blp', foundSeqNo, s', out) \<Rightarrow>
                        (case parseTSFB_loop data sz (i + 4) s' of
                           Inl e \<Rightarrow> Inl e
                         | Inr (s'', out') \<Rightarrow> Inr (s'', out @ out'))))
     else Inr (s, []))"
  by pat_completeness auto
termination
  by (relation "measure (\<lambda>(data, sz, i, s). sz - i)") auto

declare parseTSFB_loop.simps [simp del]

text \<open>
  \<open>parseTSFB(data, size)\<close>, compiled only with the retransmission feature. \<open>data\<close> is
  the list of the bytes available at the pointer.
\<close>

definition parseTSFB :: "config \<Rightarrow> byte list \<Rightarrow> nat \<Rightarrow> Sender \<Rightarrow> failure + (status_t \<times> Sender \<times> emitted list)" where
  "parseTSFB cfg data sz s =
    (if length data < 1 then Inl OUT_OF_BOUNDS
     else if (data ! 0) AND 0x1f \<noteq> 1 then Inr (ERROR_UNSUPPORTED, s, [])
     else if length data < 12 then Inl OUT_OF_BOUNDS
     else if U32_AT (drop 8 data) \<noteq> kSourceID cfg then Inr (ERROR_MALFORMED, s, [])
     else (case parseTSFB_loop data sz 12 s of
             Inl e \<Rightarrow> Inl e
           | Inr (s', out) \<Rightarrow> Inr (OK, s', out)))"

section \<open>RTCP: parseRTCP\<close>

text \<open>\<open>size_t headerLength = 4 * (data[2] << 8 | data[3]) + 4\<close>.\<close>

definition headerLengthOf :: "byte list \<Rightarrow> nat" where
  "headerLengthOf data =
     4 * unat (push_bit 8 (ucast (data ! 2) :: 32 word) OR ucast (data ! 3)) + 4"

text \<open>
  The \<open>switch (data[1])\<close> of \<open>parseRTCP\<close>. Only type 205 has an effect, and only when
  the retransmission feature is compiled in: the other types do nothing or log. The
  status \<open>parseTSFB\<close> returns is dropped, as in the source; what it sent and the sender
  it left are kept.
\<close>

definition parseRTCP_switch :: "config \<Rightarrow> byte list \<Rightarrow> nat \<Rightarrow> Sender \<Rightarrow> failure + (Sender \<times> emitted list)" where
  "parseRTCP_switch cfg data headerLength s =
    (if data ! 1 = 205 \<and> ENABLE_RETRANSMISSION cfg
     then (case parseTSFB cfg data headerLength s of
             Inl e \<Rightarrow> Inl e
           | Inr (err, s', out) \<Rightarrow> Inr (s', out))
     else Inr (s, []))"

text \<open>
  The \<open>while (size > 0)\<close> loop of \<open>parseRTCP\<close>. \<open>data\<close> is the list of the bytes from
  the current pointer to the end of the received buffer and \<open>sz\<close> the current value of
  \<open>size\<close>, which stripping padding makes smaller than the length of \<open>data\<close>.
\<close>

function parseRTCP_loop :: "config \<Rightarrow> byte list \<Rightarrow> nat \<Rightarrow> Sender \<Rightarrow> failure + (status_t \<times> Sender \<times> emitted list)" where
  "parseRTCP_loop cfg data sz s =
    (if sz > 0
     then (if sz < 8 then Inr (ERROR_MALFORMED, s, [])
           else if drop_bit 6 (data ! 0) \<noteq> 2 then Inr (ERROR_UNSUPPORTED, s, [])
           else if (data ! 0) AND 0x20 \<noteq> 0 \<and> unat (data ! (sz - 1)) + 12 > sz
           then Inr (ERROR_MALFORMED, s, [])
           else (let sz = (if (data ! 0) AND 0x20 \<noteq> 0 then sz - unat (data ! (sz - 1)) else sz);
                     headerLength = headerLengthOf data
                 in if sz < headerLength then Inr (ERROR_MALFORMED, s, [])
                    else (case parseRTCP_switch cfg data headerLength s of
                            Inl e \<Rightarrow> Inl e
                          | Inr (s', out) \<Rightarrow>
                              (case parseRTCP_loop cfg (drop headerLength data) (sz - headerLength) s' of
                                 Inl e \<Rightarrow> Inl e
                               | Inr (err, s'', out') \<Rightarrow> Inr (err, s'', out @ out')))))
     else Inr (OK, s, []))"
  by pat_completeness auto
termination
  by (relation "measure (\<lambda>(cfg, data, sz, s). sz)") (auto simp: headerLengthOf_def)

declare parseRTCP_loop.simps [simp del]

text \<open>\<open>parseRTCP(buffer)\<close>: the loop from the start of the buffer, over all of its bytes.\<close>

definition parseRTCP :: "config \<Rightarrow> byte list \<Rightarrow> Sender \<Rightarrow> failure + (status_t \<times> Sender \<times> emitted list)" where
  "parseRTCP cfg buffer s = parseRTCP_loop cfg buffer (length buffer) s"

section \<open>Transport set-up: init\<close>

text \<open>
  The network session manager is an external collaborator. Its two operations that open
  an endpoint are functions of the local port, the remote host and the remote port, and
  return the new session's identifier or fail; \<open>destroySession\<close> has no effect on
  what the sender computes.
\<close>

record ANetworkSession =
  createUDPSession :: "32 word \<Rightarrow> string \<Rightarrow> 32 word \<Rightarrow> 32 word option"
  createTCPDatagramSession :: "32 word \<Rightarrow> string \<Rightarrow> 32 word \<Rightarrow> 32 word option"

text \<open>
  The loop \<open>for (serverRtp = 15550;; serverRtp += 2)\<close> of \<open>init\<close>, which has no exit
  but \<open>break\<close>: \<open>None\<close> is the loop that never ends. \<open>serverRtp\<close> is an \<open>int\<close>;
  its increment wraps here.
\<close>

partial_function (option) init_loop ::
  "config \<Rightarrow> ANetworkSession \<Rightarrow> string \<Rightarrow> 32 word \<Rightarrow> 32 word \<Rightarrow> 32 word \<Rightarrow> Sender \<Rightarrow> (failure + Sender) option" where
  "init_loop cfg net clientIP clientRtp clientRtcp serverRtp s =
    (case (if mTransportMode s = TRANSPORT_UDP
           then createUDPSession net serverRtp clientIP clientRtp
           else createTCPDatagramSession net serverRtp clientIP clientRtp) of
       None \<Rightarrow> init_loop cfg net clientIP clientRtp clientRtcp (serverRtp + 2) s
     | Some rtpSession \<Rightarrow>
         (case (if sint clientRtcp \<ge> 0
                then (if mTransportMode s = TRANSPORT_UDP
                      then createUDPSession net (serverRtp + 1) clientIP clientRtcp
                      else createTCPDatagramSession net (serverRtp + 1) clientIP clientRtcp)
                else Some 0) of
            None \<Rightarrow> init_loop cfg net clientIP clientRtp clientRtcp (serverRtp + 2) s
          | Some rtcpSession \<Rightarrow>
              (if ENABLE_RETRANSMISSION cfg \<and> mTransportMode s = TRANSPORT_UDP
               then (case createUDPSession net (serverRtp + kRetransmissionPortOffset cfg) clientIP
                            (clientRtp + kRetransmissionPortOffset cfg) of
                       None \<Rightarrow> init_loop cfg net clientIP clientRtp clientRtcp (serverRtp + 2) s
                     | Some rtpRetransmissionSession \<Rightarrow>
                         (if \<not> sint clientRtcp \<ge> 0 then Some (Inl CHECK_FAILED)
                          else (case createUDPSession net (serverRtp + 1 + kRetransmissionPortOffset cfg) clientIP
                                       (clientRtp + 1 + kRetransmissionPortOffset cfg) of
                                  None \<Rightarrow> init_loop cfg net clientIP clientRtp clientRtcp (serverRtp + 2) s
                                | Some rtcpRetransmissionSession \<Rightarrow>
                                    Some (Inr (s\<lparr>mRTPRetransmissionSessionID := rtpRetransmissionSession,
                                                 mRTCPRetransmissionSessionID := rtcpRetransmissionSession,
                                                 mRTPPort := serverRtp,
                                                 mRTPSessionID := rtpSession,
                                                 mRTCPSessionID := rtcpSession\<rparr>)))))
               else Some (Inr (s\<lparr>mRTPPort := serverRtp,
                                  mRTPSessionID := rtpSession,
                                  mRTCPSessionID := rtcpSession\<rparr>)))))"

text \<open>\<open>init(clientIP, clientRtp, clientRtcp, transportMode)\<close>.\<close>

definition init ::
  "config \<Rightarrow> ANetworkSession \<Rightarrow> string \<Rightarrow> 32 word \<Rightarrow> 32 word \<Rightarrow> TransportMode \<Rightarrow> Sender \<Rightarrow> (failure + status_t \<times> Sender) option" where
  "init cfg net clientIP clientRtp clientRtcp transportMode s =
    (let s = s\<lparr>mClientIP := clientIP, mTransportMode := transportMode\<rparr>
     in if transportMode = TRANSPORT_TCP_INTERLEAVED
        then Some (Inr (OK, s\<lparr>mRTPChannel := clientRtp, mRTCPChannel := clientRtcp,
                              mRTPPort := 0, mRTPSessionID := 0, mRTCPSessionID := 0\<rparr>))
        else (let s = s\<lparr>mRTPChannel := 0, mRTCPChannel := 0\<rparr>
              in if mTransportMode s = TRANSPORT_TCP
                 then Some (Inr (OK, s\<lparr>mRTPPort := 20000, mRTPSessionID := 0, mRTCPSessionID := 0,
                                       mClientRTPPort := clientRtp, mClientRTCPPort := clientRtcp\<rparr>))
                 else (case init_loop cfg net clientIP clientRtp clientRtcp 15550 s of
                         None \<Rightarrow> None
                       | Some (Inl e) \<Rightarrow> Some (Inl e)
                       | Some (Inr s) \<Rightarrow>
                           if mRTPPort s = 0 then Some (Inr (UNKNOWN_ERROR, s))
                           else Some (Inr (OK, s)))))"

section \<open>Invariants and example inputs\<close>

text \<open>The capacity every queue buffer is allocated with.\<close>

definition tsQueueCapacity :: nat where
  "tsQueueCapacity = 12 + kMaxNumTSPacketsPerRTPPacket * 188"

text \<open>
  A queue buffer is well formed when it has that capacity and its range holds the
  header and whole TS packets.
\<close>

definition queue_ok :: "ABuffer \<Rightarrow> bool" where
  "queue_ok b \<longleftrightarrow> capacity b = tsQueueCapacity \<and> 12 \<le> bsize b
     \<and> (bsize b - 12) mod 188 = 0 \<and> bsize b \<le> capacity b"

text \<open>
  The invariant of the accumulation buffer; the buffers of the history, one of which
  may be recycled as the next queue buffer, have the same capacity.
\<close>

definition queueInv :: "Sender \<Rightarrow> bool" where
  "queueInv s \<longleftrightarrow> queue_ok (mTSQueue s) \<and> list_all (\<lambda>b. capacity b = tsQueueCapacity) (mHistory s)"

text \<open>One more TS packet fits: the precondition \<open>CHECK_LE\<close> of \<open>appendTSData\<close>.\<close>

definition hasRoom :: "Sender \<Rightarrow> bool" where
  "hasRoom s \<longleftrightarrow> bsize (mTSQueue s) + 188 \<le> capacity (mTSQueue s)"

text \<open>A network on which no endpoint can ever be opened.\<close>

definition unboundNet :: ANetworkSession where
  "unboundNet = \<lparr>createUDPSession = (\<lambda>_ _ _. None), createTCPDatagramSession = (\<lambda>_ _ _. None)\<rparr>"

text \<open>
  Constants for the examples: a build with the retransmission feature that keeps at most
  two packets in the history, and a clock that always reads 0.
\<close>

definition exampleConfig :: config where
  "exampleConfig = \<lparr>ENABLE_RETRANSMISSION = True, kSourceID = 0xdeadbeef,
                     kMaxHistoryLength = 2, kRetransmissionPortOffset = 120\<rparr>"

definition zeroClock :: clock where
  "zeroClock = (\<lambda>n. 0)"

text \<open>The sequence number a packet carries on the wire, bytes 2 and 3.\<close>

definition seqNoOf :: "emitted \<Rightarrow> 16 word" where
  "seqNoOf e = U16_AT (drop 2 (payloadOf e))"

text \<open>The packets carry the sequence numbers \<open>c\<close>, \<open>c + 1\<close>, ... in 16-bit arithmetic.\<close>

definition consecutiveFrom :: "16 word \<Rightarrow> emitted list \<Rightarrow> bool" where
  "consecutiveFrom c out \<longleftrightarrow> map seqNoOf out = map (\<lambda>i. c + of_nat i) [0..<length out]"

text \<open>What a run of the packetizer from \<open>s\<close> to \<open>s'\<close> that emitted \<open>out\<close> preserves.\<close>

definition batchRun :: "Sender \<Rightarrow> Sender \<Rightarrow> emitted list \<Rightarrow> bool" where
  "batchRun s s' out \<longleftrightarrow> queueInv s' \<and> hasRoom s'
     \<and> mRTPSeqNo s' = mRTPSeqNo s + of_nat (length out)
     \<and> consecutiveFrom (ucast (mRTPSeqNo s)) out"

text \<open>Two batches, of two TS packets and of one.\<close>

definition twoBatches :: "byte list list" where
  "twoBatches = [replicate 376 1, replicate 188 2]"

text \<open>Times far from the ends of the signed 64-bit range, so that the pacing sums cannot wrap.\<close>

definition smallTime :: "64 word \<Rightarrow> bool" where
  "smallTime t \<longleftrightarrow> - (2 ^ 60) < sint t \<and> sint t < 2 ^ 60"

text \<open>A clock that reads 100 first and 200 from then on.\<close>

definition stepClock :: clock where
  "stepClock = (\<lambda>n. if n = 0 then 100 else 200)"

text \<open>
  A first call of \<open>queuePackets\<close> with the presentation time 1000, made at the wall
  time 100, and a later call with the presentation time 1500, made at the wall time 200.
\<close>

definition firstCallAt1000 :: "Sender \<times> QueuePacketsMsg" where
  "firstCallAt1000 = queuePackets stepClock 1000 [] Sender_new"

definition laterCallAt1500 :: "Sender \<times> QueuePacketsMsg" where
  "laterCallAt1500 = queuePackets stepClock 1500 [] (fst firstCallAt1000)"

text \<open>
  The conditions \<open>parseRTCP\<close> tests on the bytes at the current pointer and on the
  remaining size, named: the padding flag, the size once the padding is stripped, and
  the three ways a sub-packet header is refused.
\<close>

definition paddingFlag :: "byte list \<Rightarrow> bool" where
  "paddingFlag data \<longleftrightarrow> (data ! 0) AND 0x20 \<noteq> 0"

definition strippedSize :: "byte list \<Rightarrow> nat \<Rightarrow> nat" where
  "strippedSize data sz = (if paddingFlag data then sz - unat (data ! (sz - 1)) else sz)"

definition badVersion :: "byte list \<Rightarrow> bool" where
  "badVersion data \<longleftrightarrow> drop_bit 6 (data ! 0) \<noteq> 2"

definition badPadding :: "byte list \<Rightarrow> nat \<Rightarrow> bool" where
  "badPadding data sz \<longleftrightarrow> paddingFlag data \<and> unat (data ! (sz - 1)) + 12 > sz"

definition badLength :: "byte list \<Rightarrow> nat \<Rightarrow> bool" where
  "badLength data sz \<longleftrightarrow> strippedSize data sz < headerLengthOf data"

text \<open>The sub-packet at the pointer passes every test of the loop body.\<close>

definition wellFormedHead :: "byte list \<Rightarrow> nat \<Rightarrow> bool" where
  "wellFormedHead data sz \<longleftrightarrow>
     8 \<le> sz \<and> \<not> badVersion data \<and> \<not> badPadding data sz \<and> \<not> badLength data sz"

text \<open>
  The remainders at which the walk stops: a non-empty remainder shorter than 8 bytes or a
  version-2 sub-packet with bad padding or a bad length (malformed), a sub-packet of
  another version (unsupported), and the empty remainder (the buffer is exhausted).
\<close>

fun malformedAt :: "byte list \<times> nat \<Rightarrow> bool" where
  "malformedAt (data, sz) \<longleftrightarrow>
     (0 < sz \<and> sz < 8) \<or> (8 \<le> sz \<and> \<not> badVersion data \<and> (badPadding data sz \<or> badLength data sz))"

fun unsupportedAt :: "byte list \<times> nat \<Rightarrow> bool" where
  "unsupportedAt (data, sz) \<longleftrightarrow> 8 \<le> sz \<and> badVersion data"

fun exhaustedAt :: "byte list \<times> nat \<Rightarrow> bool" where
  "exhaustedAt (data, sz) \<longleftrightarrow> sz = 0"

text \<open>
  A generic NACK whose buffer ends before byte 12: \<open>parseTSFB\<close> reads the source ID at
  bytes 8-11 without looking at the size it was given.
\<close>

fun tsfbOverrunAt :: "byte list \<times> nat \<Rightarrow> bool" where
  "tsfbOverrunAt (data, sz) \<longleftrightarrow>
     wellFormedHead data sz \<and> data ! 1 = 205 \<and> (data ! 0) AND 0x1f = 1 \<and> length data < 12"

text \<open>
  The remainders the walk of \<open>parseRTCP\<close> visits, as pairs of the bytes from the pointer
  on and the remaining size: it advances past a sub-packet that passes the tests and
  stops at the first remainder that does not.
\<close>

function remainders :: "byte list \<Rightarrow> nat \<Rightarrow> (byte list \<times> nat) list" where
  "remainders data sz =
     (data, sz) #
     (if wellFormedHead data sz
      then remainders (drop (headerLengthOf data) data) (strippedSize data sz - headerLengthOf data)
      else [])"
  by pat_completeness auto
termination
  by (relation "measure (\<lambda>(data, sz). sz)")
     (auto simp: wellFormedHead_def badLength_def strippedSize_def headerLengthOf_def split: if_splits)

declare remainders.simps [simp del]

text \<open>The status that belongs to the remainder at which the walk stops.\<close>

fun verdict :: "byte list \<times> nat \<Rightarrow> status_t" where
  "verdict r = (if malformedAt r then ERROR_MALFORMED
                else if unsupportedAt r then ERROR_UNSUPPORTED else OK)"

text \<open>
  The NACK entries of a feedback packet of \<open>sz\<close> bytes: the pairs of base sequence
  number and bitmask that the loop of \<open>parseTSFB\<close> reads at the offsets 12, 16, ...
  below \<open>sz\<close> (a multiple of 4, as \<open>parseRTCP\<close> passes it).
\<close>

fun entriesAt :: "byte list \<Rightarrow> nat \<Rightarrow> nat \<Rightarrow> (16 word \<times> 16 word) list" where
  "entriesAt data i 0 = []"
| "entriesAt data i (Suc n) =
     (U16_AT (drop i data), U16_AT (drop (i + 2) data)) # entriesAt data (i + 4) n"

definition nackEntries :: "byte list \<Rightarrow> nat \<Rightarrow> (16 word \<times> 16 word) list" where
  "nackEntries data sz = entriesAt data 12 ((sz - 12) div 4)"

text \<open>
  Serving the entries in order: each by one scan of the history, from the sender that the
  entry before it left.
\<close>

fun serveEntries :: "(16 word \<times> 16 word) list \<Rightarrow> Sender \<Rightarrow> Sender \<times> emitted list" where
  "serveEntries [] s = (s, [])"
| "serveEntries ((seqNo, blp) # es) s =
     (case scanHistory seqNo (mHistory s) blp False s of
        (blp', foundSeqNo, s1, out1) \<Rightarrow>
          (case serveEntries es s1 of (s2, out2) \<Rightarrow> (s2, out1 @ out2)))"

text \<open>
  A feedback sub-packet that the NACK handler accepts (the feature is compiled in, the
  packet is a generic NACK and names the sender's source ID), and one that it rejects.
\<close>

definition acceptedNack :: "config \<Rightarrow> byte list \<Rightarrow> bool" where
  "acceptedNack cfg d \<longleftrightarrow> ENABLE_RETRANSMISSION cfg \<and> d ! 1 = 205 \<and> (d ! 0) AND 0x1f = 1
     \<and> U32_AT (drop 8 d) = kSourceID cfg"

definition rejectedFeedback :: "config \<Rightarrow> byte list \<Rightarrow> bool" where
  "rejectedFeedback cfg d \<longleftrightarrow> d ! 1 = 205
     \<and> ((d ! 0) AND 0x1f \<noteq> 1 \<or> U32_AT (drop 8 d) \<noteq> kSourceID cfg)"

text \<open>
  The effect of one sub-packet that the walk passes: the entries of an accepted NACK are
  served; every other sub-packet leaves the sender alone and sends nothing.
\<close>

definition subPacketEffect :: "config \<Rightarrow> byte list \<Rightarrow> Sender \<Rightarrow> Sender \<times> emitted list" where
  "subPacketEffect cfg d s =
     (if acceptedNack cfg d then serveEntries (nackEntries d (headerLengthOf d)) s else (s, []))"

text \<open>The effects of the sub-packets of a walk, in order.\<close>

fun walkEffects :: "config \<Rightarrow> (byte list \<times> nat) list \<Rightarrow> Sender \<Rightarrow> Sender \<times> emitted list" where
  "walkEffects cfg [] s = (s, [])"
| "walkEffects cfg ((d, n) # rs) s =
     (case subPacketEffect cfg d s of
        (s1, out1) \<Rightarrow> (case walkEffects cfg rs s1 of (s2, out2) \<Rightarrow> (s2, out1 @ out2)))"

text \<open>
  What a result of the walk from a remainder has to satisfy: no status exactly when the
  NACK handler overruns the buffer, and otherwise the status of the last remainder with
  the effects of the sub-packets before it.
\<close>

definition walkOutcome ::
  "config \<Rightarrow> byte list \<Rightarrow> nat \<Rightarrow> Sender \<Rightarrow> failure + (status_t \<times> Sender \<times> emitted list) \<Rightarrow> bool" where
  "walkOutcome cfg data sz s res =
    (case res of
       Inl e \<Rightarrow> e = OUT_OF_BOUNDS \<and> ENABLE_RETRANSMISSION cfg
                 \<and> (\<exists>r\<in>set (remainders data sz). tsfbOverrunAt r)
     | Inr (st, s', out) \<Rightarrow>
         st = verdict (last (remainders data sz))
         \<and> (s', out) = walkEffects cfg (butlast (remainders data sz)) s
         \<and> \<not> (ENABLE_RETRANSMISSION cfg \<and> (\<exists>r\<in>set (remainders data sz). tsfbOverrunAt r)))"

text \<open>A build without the retransmission feature.\<close>

definition plainConfig :: config where
  "plainConfig = \<lparr>ENABLE_RETRANSMISSION = False, kSourceID = 0xdeadbeef,
                   kMaxHistoryLength = 2, kRetransmissionPortOffset = 120\<rparr>"

text \<open>
  Example buffers: an 8-byte version-2 sub-packet with the padding flag set, a padding
  length of 0 and a declared length of 8 bytes; and a 3-byte fragment.
\<close>

definition paddedEight :: "byte list" where
  "paddedEight = [0xA0, 200, 0, 1, 0, 0, 0, 0]"

definition truncatedThree :: "byte list" where
  "truncatedThree = [0x80, 200, 0]"

text \<open>An 8-byte generic NACK: the buffer ends before the source ID at bytes 8-11.\<close>

definition shortNack :: "byte list" where
  "shortNack = [0x81, 205, 0, 1, 0, 0, 0, 0]"

text \<open>
  The sender after one flushed packet (sequence number 0, kept in the history), and RTCP
  sub-packets: a generic NACK for sequence number 0, a sub-packet of version 1, a
  feedback packet of format subtype 2, and a generic NACK naming another source.
\<close>

definition oneFlushed :: Sender where
  "oneFlushed =
     (case appendTSData exampleConfig zeroClock (replicate 188 0) 188 True True Sender_new of
        Inl e \<Rightarrow> Sender_new
      | Inr (s, out) \<Rightarrow> s)"

definition nackForZero :: "byte list" where
  "nackForZero = [0x81, 205, 0, 3, 0, 0, 0, 0, 0xde, 0xad, 0xbe, 0xef, 0, 0, 0, 0]"

definition versionOnePacket :: "byte list" where
  "versionOnePacket = [0x40, 200, 0, 1, 0, 0, 0, 0]"

definition subtypeTwoPacket :: "byte list" where
  "subtypeTwoPacket = [0x82, 205, 0, 3, 0, 0, 0, 0, 0xde, 0xad, 0xbe, 0xef, 0, 0, 0, 0]"

definition foreignSourcePacket :: "byte list" where
  "foreignSourcePacket = [0x81, 205, 0, 3, 0, 0, 0, 0, 1, 2, 3, 4, 0, 0, 0, 0]"

text \<open>A sub-packet without padding at the front of a buffer, and what follows it.\<close>

definition plainSubPacket :: "byte list \<Rightarrow> bool" where
  "plainSubPacket pkt \<longleftrightarrow> 8 \<le> length pkt \<and> length pkt = headerLengthOf pkt
     \<and> drop_bit 6 (pkt ! 0) = 2 \<and> (pkt ! 0) AND 0x20 = 0"

text \<open>The 16-bit sequence number a history buffer is tagged with, as \<open>parseTSFB\<close> reads it.\<close>

definition tagOf :: "ABuffer \<Rightarrow> 16 word" where
  "tagOf b = ucast (int32Data b AND 0xffff)"

text \<open>
  What a NACK entry asks for: the base sequence number, and for every bit \<open>i\<close> set in
  the bitmask the sequence number \<open>base + i + 1\<close> (modulo 65536).
\<close>

definition bitRequested :: "16 word \<Rightarrow> 16 word \<Rightarrow> 16 word \<Rightarrow> bool" where
  "bitRequested seqNo blp t \<longleftrightarrow> list_ex (\<lambda>i. bit blp i \<and> t = seqNo + of_nat i + 1) [0..<16]"

definition requested :: "16 word \<Rightarrow> 16 word \<Rightarrow> 16 word \<Rightarrow> bool" where
  "requested seqNo blp t \<longleftrightarrow> t = seqNo \<or> bitRequested seqNo blp t"

text \<open>
  The packets sent for a list of history buffers, in order, by one session, with the
  retransmission counter advancing by one from packet to packet.
\<close>

fun retransmissions :: "32 word \<Rightarrow> 32 word \<Rightarrow> ABuffer list \<Rightarrow> emitted list" where
  "retransmissions session counter [] = []"
| "retransmissions session counter (b # bs) =
     SendRequest session (retransRTP counter (tagOf b) b) # retransmissions session (counter + 1) bs"

text \<open>The bitmask after the loop body has looked at a buffer tagged \<open>t\<close>.\<close>

definition blpAfter :: "16 word \<Rightarrow> 16 word \<Rightarrow> 16 word \<Rightarrow> 16 word" where
  "blpAfter seqNo blp t =
     (if t = seqNo \<or> blp = 0 then blp else fst (matchBits seqNo t blp))"

text \<open>A history buffer holds at least a header, within its array.\<close>

definition bufferOk :: "ABuffer \<Rightarrow> bool" where
  "bufferOk b \<longleftrightarrow> 12 \<le> bsize b \<and> bsize b \<le> length (bdata b)"

text \<open>
  The retransmission framing, in the words of the wire format: the original 12-byte
  header with the counter in bytes 2-3, then the original sequence number in two bytes,
  then the original payload.
\<close>

definition isRetransmissionOf :: "byte list \<Rightarrow> 16 word \<Rightarrow> ABuffer \<Rightarrow> bool" where
  "isRetransmissionOf pkt counter b \<longleftrightarrow>
     length pkt = bsize b + 2
     \<and> take 2 pkt = take 2 (bdata b)
     \<and> U16_AT (drop 2 pkt) = counter
     \<and> take 8 (drop 4 pkt) = take 8 (drop 4 (bdata b))
     \<and> U16_AT (drop 12 pkt) = tagOf b
     \<and> drop 14 pkt = drop 12 (contents b)"

text \<open>
  A generic NACK (type 205, format 1) for this sender with one entry: header, sender
  SSRC, the source ID, the base sequence number and the bitmask.
\<close>

definition nackPacket :: "config \<Rightarrow> 16 word \<Rightarrow> 16 word \<Rightarrow> byte list" where
  "nackPacket cfg seqNo blp =
     [0x81, 205, 0, 3, 0, 0, 0, 0,
      ucast (drop_bit 24 (kSourceID cfg)), ucast (drop_bit 16 (kSourceID cfg) AND 0xff),
      ucast (drop_bit 8 (kSourceID cfg) AND 0xff), ucast (kSourceID cfg AND 0xff),
      ucast (drop_bit 8 seqNo AND 0xff), ucast (seqNo AND 0xff),
      ucast (drop_bit 8 blp AND 0xff), ucast (blp AND 0xff)]"

text \<open>The buffers are tagged \<open>base\<close>, \<open>base + 1\<close>, ... in order.\<close>

definition consecutiveTags :: "32 word \<Rightarrow> ABuffer list \<Rightarrow> bool" where
  "consecutiveTags base hist \<longleftrightarrow>
     map int32Data hist = map (\<lambda>i. base + of_nat i) [0..<length hist]"

text \<open>
  The invariant of the retransmission history: the stored length is the length of the
  list, it is within the bound, and the buffers are the last packets flushed, in send
  order.
\<close>

definition historyInv :: "config \<Rightarrow> Sender \<Rightarrow> bool" where
  "historyInv cfg s \<longleftrightarrow>
     mHistoryLength s = length (mHistory s)
     \<and> length (mHistory s) \<le> kMaxHistoryLength cfg
     \<and> list_all bufferOk (mHistory s)
     \<and> consecutiveTags (mRTPSeqNo s - of_nat (length (mHistory s))) (mHistory s)"

text \<open>The sender after the two example batches: two packets flushed, both in the history.\<close>

definition twoFlushed :: Sender where
  "twoFlushed =
     (case deliverQueuePackets exampleConfig zeroClock twoBatches Sender_new of
        Inl e \<Rightarrow> Sender_new
      | Inr (s, out) \<Rightarrow> s)"

text \<open>
  The sizes and tags of the queue buffer and of the history, for evaluating an example
  state once.
\<close>

definition historySummary :: "Sender \<Rightarrow> (nat \<times> nat) \<times> (nat \<times> 32 word) \<times> (32 word \<times> nat \<times> nat) list" where
  "historySummary s =
     ((bsize (mTSQueue s), capacity (mTSQueue s)),
      (mHistoryLength s, mRTPSeqNo s),
      map (\<lambda>b. (int32Data b, bsize b, capacity b)) (mHistory s))"

text \<open>
  A generic NACK for the example sender with two entries: the base sequence number 1
  with an empty bitmask, then the base sequence number 0 with bit 0 set (which asks for
  sequence number 1 as well).
\<close>

definition twoEntryNack :: "byte list" where
  "twoEntryNack = [0x81, 205, 0, 4, 0, 0, 0, 0, 0xde, 0xad, 0xbe, 0xef, 0, 1, 0, 0, 0, 0, 0, 1]"

text \<open>
  What a result shows of the retransmissions: the status, the retransmission counter
  afterwards, and for each packet sent the counter in bytes 2-3 and the original sequence
  number in bytes 12-13.
\<close>

definition retransmissionSummary ::
  "failure + (status_t \<times> Sender \<times> emitted list) \<Rightarrow> (status_t \<times> 32 word \<times> (16 word \<times> 16 word) list) option" where
  "retransmissionSummary res =
     (case res of
        Inl e \<Rightarrow> None
      | Inr (st, s', out) \<Rightarrow>
          Some (st, mRTPRetransmissionSeqNo s',
                map (\<lambda>e. (U16_AT (drop 2 (payloadOf e)), U16_AT (drop 12 (payloadOf e)))) out))"

section \<open>The accumulation buffer\<close>

lemma tsQueueCapacity_eq: "tsQueueCapacity = 1328"
  by (simp add: tsQueueCapacity_def kMaxNumTSPacketsPerRTPPacket_def kMaxRTPPacketSize_def)

lemma length_memcpy: "off + length src \<le> length dst \<Longrightarrow> length (memcpy dst off src) = length dst"
  by (simp add: memcpy_def)

lemma length_stampHeader [simp]: "length (stampHeader cfg td sq t rtp) = length rtp"
  by (simp add: stampHeader_def)

lemma flush_out: "snd (appendTSData_flush cfg clk td s) =
  [if mTransportMode s = TRANSPORT_TCP_INTERLEAVED
   then NotifyBinaryData (mRTPChannel s) (take (bsize (mTSQueue s)) (stampHeader cfg td (mRTPSeqNo s) (rtpTimeOf (clk (nowReads s))) (bdata (mTSQueue s))))
   else SendRequest (mRTPSessionID s) (take (bsize (mTSQueue s)) (stampHeader cfg td (mRTPSeqNo s) (rtpTimeOf (clk (nowReads s))) (bdata (mTSQueue s))))]"
  by (simp add: appendTSData_flush_def GetNowUs_def Let_def)

lemma flush_seq: "mRTPSeqNo (fst (appendTSData_flush cfg clk td s)) = mRTPSeqNo s + 1"
  by (simp add: appendTSData_flush_def GetNowUs_def Let_def)

lemma flush_bsize: "bsize (mTSQueue (fst (appendTSData_flush cfg clk td s))) = 12"
  by (simp add: appendTSData_flush_def GetNowUs_def Let_def)

lemma flush_capacity:
  "capacity (mTSQueue s) = tsQueueCapacity \<Longrightarrow> list_all (\<lambda>b. capacity b = tsQueueCapacity) (mHistory s) \<Longrightarrow>
   capacity (mTSQueue (fst (appendTSData_flush cfg clk td s))) = tsQueueCapacity"
  apply (simp add: appendTSData_flush_def GetNowUs_def Let_def capacity_def new_ABuffer_def tsQueueCapacity_def)
  apply (cases "mHistory s")
   apply (auto)
  done

lemma flush_history:
  "capacity (mTSQueue s) = tsQueueCapacity \<Longrightarrow> list_all (\<lambda>b. capacity b = tsQueueCapacity) (mHistory s) \<Longrightarrow>
   list_all (\<lambda>b. capacity b = tsQueueCapacity) (mHistory (fst (appendTSData_flush cfg clk td s)))"
  apply (simp add: appendTSData_flush_def GetNowUs_def Let_def capacity_def new_ABuffer_def tsQueueCapacity_def)
  apply (cases "mHistory s")
   apply (auto)
  done

lemma queue_ok_append:
  assumes "queue_ok q" "bsize q + 188 \<le> capacity q" "length src = 188"
  shows "queue_ok (q\<lparr>bdata := memcpy (bdata q) (bsize q) src, bsize := bsize q + 188\<rparr>)"
proof -
  from assms(1) have "12 \<le> bsize q" "(bsize q - 12) mod 188 = 0" by (simp_all add: queue_ok_def)
  then have "(bsize q + 188 - 12) mod 188 = 0" by presburger
  with assms show ?thesis by (simp add: queue_ok_def capacity_def length_memcpy)
qed

lemma queue_ok_room:
  assumes "queue_ok q" "bsize q \<noteq> capacity q"
  shows "bsize q + 188 \<le> capacity q"
proof -
  from assms have "bsize q < 1328" "12 \<le> bsize q" "(bsize q - 12) mod 188 = 0" "capacity q = 1328"
    by (auto simp: queue_ok_def tsQueueCapacity_eq)
  then show ?thesis by presburger
qed

lemma queueInv_flush:
  assumes "queueInv s"
  shows "queueInv (fst (appendTSData_flush cfg clk td s))"
    and "hasRoom (fst (appendTSData_flush cfg clk td s))"
  using assms flush_capacity [of s cfg clk td] flush_history [of s cfg clk td] flush_bsize [of cfg clk td s]
  by (simp_all add: queueInv_def queue_ok_def hasRoom_def tsQueueCapacity_eq)

lemma queueInv_Sender_new: "queueInv Sender_new"
  by (simp add: queueInv_def queue_ok_def Sender_new_def new_ABuffer_def capacity_def tsQueueCapacity_def
      kMaxNumTSPacketsPerRTPPacket_def kMaxRTPPacketSize_def)

lemma hasRoom_Sender_new: "hasRoom Sender_new"
  by (simp add: hasRoom_def Sender_new_def new_ABuffer_def capacity_def
      kMaxNumTSPacketsPerRTPPacket_def kMaxRTPPacketSize_def)

section \<open>The RTP header, read back\<close>

text \<open>Big-endian bytes, read back.\<close>

lemma ff32: "(0xff :: 32 word) = mask 8" by (simp add: mask_eq_exp_minus_1)
lemma ff16: "(0xff :: 16 word) = mask 8" by (simp add: mask_eq_exp_minus_1)

lemma be16_of32:
  "push_bit 8 (ucast (ucast (drop_bit 8 x AND 0xff :: 32 word) :: byte) :: 16 word)
     OR ucast (ucast (x AND 0xff) :: byte) = ucast x"
  unfolding ff32
proof (rule bit_word_eqI)
  fix n assume "n < LENGTH(16)"
  then consider "n < 8" | "8 \<le> n" "n < 16" by fastforce
  then show "bit (push_bit 8 (ucast (ucast (drop_bit 8 x AND mask 8 :: 32 word) :: byte) :: 16 word)
     OR ucast (ucast (x AND mask 8) :: byte)) n = bit (ucast x :: 16 word) n"
  proof cases
    case 1
    then show ?thesis by (auto simp: bit_simps)
  next
    case 2
    then show ?thesis by (auto simp: bit_simps)
  qed
qed

lemma be16_of16:
  "push_bit 8 (ucast (ucast (drop_bit 8 x AND 0xff :: 16 word) :: byte) :: 16 word)
     OR ucast (ucast (x AND 0xff) :: byte) = x"
  unfolding ff16
proof (rule bit_word_eqI)
  fix n assume "n < LENGTH(16)"
  then consider "n < 8" | "8 \<le> n" "n < 16" by fastforce
  then show "bit (push_bit 8 (ucast (ucast (drop_bit 8 x AND mask 8 :: 16 word) :: byte) :: 16 word)
     OR ucast (ucast (x AND mask 8) :: byte)) n = bit x n"
  proof cases
    case 1
    then show ?thesis by (auto simp: bit_simps)
  next
    case 2
    then show ?thesis by (auto simp: bit_simps)
  qed
qed

lemma be32_of32:
  "push_bit 24 (ucast (ucast (drop_bit 24 x :: 32 word) :: byte) :: 32 word)
     OR push_bit 16 (ucast (ucast (drop_bit 16 x AND 0xff) :: byte))
     OR push_bit 8 (ucast (ucast (drop_bit 8 x AND 0xff) :: byte))
     OR ucast (ucast (x AND 0xff) :: byte) = x"
  unfolding ff32
proof (rule bit_word_eqI)
  fix n assume "n < LENGTH(32)"
  then consider "n < 8" | "8 \<le> n" "n < 16" | "16 \<le> n" "n < 24" | "24 \<le> n" "n < 32"
    by fastforce
  then show "bit (push_bit 24 (ucast (ucast (drop_bit 24 x :: 32 word) :: byte) :: 32 word)
     OR push_bit 16 (ucast (ucast (drop_bit 16 x AND mask 8) :: byte))
     OR push_bit 8 (ucast (ucast (drop_bit 8 x AND mask 8) :: byte))
     OR ucast (ucast (x AND mask 8) :: byte)) n = bit x n"
  proof cases
    case 1
    then show ?thesis by (auto simp: bit_simps)
  next
    case 2
    then show ?thesis by (auto simp: bit_simps)
  next
    case 3
    then show ?thesis by (auto simp: bit_simps)
  next
    case 4
    then show ?thesis by (auto simp: bit_simps)
  qed
qed

text \<open>Narrowing a 32-bit counter to the 16 bits on the wire commutes with counting.\<close>

lemma ucast_down_add: "(ucast (x + y :: 32 word) :: 16 word) = ucast x + ucast y"
proof -
  have d: "(2::nat) ^ 16 dvd 2 ^ 32" by (simp add: le_imp_power_dvd)
  have "unat (ucast (x + y) :: 16 word) = (unat x + unat y) mod 2 ^ 32 mod 2 ^ 16"
    by (simp add: unsigned_ucast_eq take_bit_eq_mod unat_word_ariths)
  also have "\<dots> = (unat x + unat y) mod 2 ^ 16"
    using d by (rule mod_mod_cancel)
  also have "\<dots> = unat (ucast x + ucast y :: 16 word)"
    by (simp add: unsigned_ucast_eq take_bit_eq_mod unat_word_ariths mod_add_eq)
  finally show ?thesis by (rule word_unat_eq_iff [THEN iffD2])
qed

lemma ucast_down_of_nat: "(ucast (of_nat n :: 32 word) :: 16 word) = of_nat n"
proof -
  have d: "(2::nat) ^ 16 dvd 2 ^ 32" by (simp add: le_imp_power_dvd)
  have "unat (ucast (of_nat n :: 32 word) :: 16 word) = n mod 2 ^ 32 mod 2 ^ 16"
    by (simp add: unsigned_ucast_eq take_bit_eq_mod unat_of_nat)
  also have "\<dots> = n mod 2 ^ 16" using d by (rule mod_mod_cancel)
  also have "\<dots> = unat (of_nat n :: 16 word)" by (simp add: unat_of_nat)
  finally show ?thesis by (rule word_unat_eq_iff [THEN iffD2])
qed

text \<open>The stamped header, read back.\<close>

lemma stampHeader_nth:
  assumes "12 \<le> length rtp"
  shows "stampHeader cfg td sq t rtp ! 0 = 0x80"
    and "stampHeader cfg td sq t rtp ! Suc 0 = 33 OR (if td then push_bit 7 1 else 0)"
    and "stampHeader cfg td sq t rtp ! 2 = ucast (drop_bit 8 sq AND 0xff)"
    and "stampHeader cfg td sq t rtp ! 3 = ucast (sq AND 0xff)"
    and "stampHeader cfg td sq t rtp ! 4 = ucast (drop_bit 24 t)"
    and "stampHeader cfg td sq t rtp ! 5 = ucast (drop_bit 16 t AND 0xff)"
    and "stampHeader cfg td sq t rtp ! 6 = ucast (drop_bit 8 t AND 0xff)"
    and "stampHeader cfg td sq t rtp ! 7 = ucast (t AND 0xff)"
    and "stampHeader cfg td sq t rtp ! 8 = ucast (drop_bit 24 (kSourceID cfg))"
    and "stampHeader cfg td sq t rtp ! 9 = ucast (drop_bit 16 (kSourceID cfg) AND 0xff)"
    and "stampHeader cfg td sq t rtp ! 10 = ucast (drop_bit 8 (kSourceID cfg) AND 0xff)"
    and "stampHeader cfg td sq t rtp ! 11 = ucast (kSourceID cfg AND 0xff)"
proof -
  from assms have "rtp \<noteq> []" by auto
  with assms show
    "stampHeader cfg td sq t rtp ! 0 = 0x80"
    "stampHeader cfg td sq t rtp ! Suc 0 = 33 OR (if td then push_bit 7 1 else 0)"
    "stampHeader cfg td sq t rtp ! 2 = ucast (drop_bit 8 sq AND 0xff)"
    "stampHeader cfg td sq t rtp ! 3 = ucast (sq AND 0xff)"
    "stampHeader cfg td sq t rtp ! 4 = ucast (drop_bit 24 t)"
    "stampHeader cfg td sq t rtp ! 5 = ucast (drop_bit 16 t AND 0xff)"
    "stampHeader cfg td sq t rtp ! 6 = ucast (drop_bit 8 t AND 0xff)"
    "stampHeader cfg td sq t rtp ! 7 = ucast (t AND 0xff)"
    "stampHeader cfg td sq t rtp ! 8 = ucast (drop_bit 24 (kSourceID cfg))"
    "stampHeader cfg td sq t rtp ! 9 = ucast (drop_bit 16 (kSourceID cfg) AND 0xff)"
    "stampHeader cfg td sq t rtp ! 10 = ucast (drop_bit 8 (kSourceID cfg) AND 0xff)"
    "stampHeader cfg td sq t rtp ! 11 = ucast (kSourceID cfg AND 0xff)"
    unfolding stampHeader_def by simp_all
qed

lemma stampHeader_drop12: "drop 12 (stampHeader cfg td sq t rtp) = drop 12 rtp"
  unfolding stampHeader_def by simp

lemma stamped_fields:
  assumes "12 \<le> length rtp" "12 \<le> n"
  shows "U16_AT (drop 2 (take n (stampHeader cfg td sq t rtp))) = ucast sq"
    and "U32_AT (drop 4 (take n (stampHeader cfg td sq t rtp))) = t"
    and "U32_AT (drop 8 (take n (stampHeader cfg td sq t rtp))) = kSourceID cfg"
    and "take n (stampHeader cfg td sq t rtp) ! 0 = 0x80"
    and "take n (stampHeader cfg td sq t rtp) ! 1 = 33 OR (if td then push_bit 7 1 else 0)"
  using assms
  by (simp_all add: U16_AT_def U32_AT_def stampHeader_nth be16_of32 be32_of32 del: push_bit_of_1 split del: if_split)

lemma marker_byte:
  "(33 OR (if td then push_bit 7 1 else 0) :: byte) AND 0x7f = 33"
  "bit (33 OR (if td then push_bit 7 1 else 0) :: byte) 7 = td"
  by (cases td; simp add: bit_simps)+

lemma first_byte:
  "drop_bit 6 (0x80 :: byte) = 2" "\<not> bit (0x80 :: byte) 5" "\<not> bit (0x80 :: byte) 4" "(0x80 :: byte) AND 0xf = 0"
  by simp_all

lemma flush_counters:
  "mNumRTPSent (fst (appendTSData_flush cfg clk td s)) = mNumRTPSent s + 1"
  "mNumRTPOctetsSent (fst (appendTSData_flush cfg clk td s)) =
     mNumRTPOctetsSent s + of_nat (bsize (mTSQueue s) - 12)"
  "mLastRTPTime (fst (appendTSData_flush cfg clk td s)) = rtpTimeOf (clk (nowReads s))"
  by (simp_all add: appendTSData_flush_def GetNowUs_def Let_def)

lemma take_memcpy:
  assumes "off \<le> length dst"
  shows "take (off + length src) (memcpy dst off src) = take off dst @ src"
  using assms by (simp add: memcpy_def)

text \<open>The timestamp counts in units of 1/90000 s: microseconds times 9, divided by 100.\<close>

lemma sint_times9:
  assumes "0 \<le> sint (t :: 64 word)" "sint t < 2 ^ 59"
  shows "sint (t * 9) = sint t * 9"
proof -
  have "sint (t * 9) = signed_take_bit 63 (sint t * sint (9 :: 64 word))"
    by (simp add: sint_word_ariths)
  also have "\<dots> = signed_take_bit 63 (sint t * 9)" by simp
  also have "\<dots> = sint t * 9"
    using assms by (intro signed_take_bit_int_eq_self) auto
  finally show ?thesis .
qed

lemma rtpTimeOf_90kHz:
  assumes "0 \<le> sint t" "sint t < 2 ^ 59"
  shows "uint (rtpTimeOf t) = (sint t * 9 div 100) mod 2 ^ 32"
proof -
  have "sint (t * 9) sdiv 100 = sint t * 9 div 100"
    using assms by (simp add: sint_times9 signed_divide_int_def sgn_if)
  then show ?thesis
    by (simp add: rtpTimeOf_def uint_word_of_int take_bit_eq_mod)
qed

section \<open>The flush policy and the packet a flush sends\<close>

lemma flushed_packet:
  assumes "queueInv s" and "bsize (mTSQueue s) + 188 \<le> capacity (mTSQueue s)"
    and "188 \<le> length data"
  shows "\<exists>rtp. snd (appendTSData_flush cfg clk td
                  (s\<lparr>mTSQueue := (mTSQueue s)\<lparr>bdata := memcpy (bdata (mTSQueue s)) (bsize (mTSQueue s)) (take 188 data),
                         bsize := bsize (mTSQueue s) + 188\<rparr>\<rparr>))
                = [if mTransportMode s = TRANSPORT_TCP_INTERLEAVED
                   then NotifyBinaryData (mRTPChannel s) rtp
                   else SendRequest (mRTPSessionID s) rtp]
           \<and> length rtp = bsize (mTSQueue s) + 188
           \<and> rtp ! 0 = 0x80
           \<and> rtp ! 1 = 33 OR (if td then push_bit 7 1 else 0)
           \<and> U16_AT (drop 2 rtp) = ucast (mRTPSeqNo s)
           \<and> U32_AT (drop 4 rtp) = rtpTimeOf (clk (nowReads s))
           \<and> U32_AT (drop 8 rtp) = kSourceID cfg
           \<and> drop 12 rtp = drop 12 (contents (mTSQueue s)) @ take 188 data"
proof -
  let ?q = "(mTSQueue s)\<lparr>bdata := memcpy (bdata (mTSQueue s)) (bsize (mTSQueue s)) (take 188 data),
                         bsize := bsize (mTSQueue s) + 188\<rparr>"
  let ?s1 = "s\<lparr>mTSQueue := ?q\<rparr>"
  let ?t = "rtpTimeOf (clk (nowReads s))"
  let ?rtp = "take (bsize ?q) (stampHeader cfg td (mRTPSeqNo s) ?t (bdata ?q))"
  let ?r = "appendTSData_flush cfg clk td ?s1"
  have len: "length (take 188 data) = 188" using assms(3) by simp
  have q0: "queue_ok (mTSQueue s)" using assms(1) by (simp add: queueInv_def)
  have qok: "queue_ok ?q" using queue_ok_append [OF q0 assms(2) len] .
  have out: "snd ?r = [if mTransportMode s = TRANSPORT_TCP_INTERLEAVED
         then NotifyBinaryData (mRTPChannel s) ?rtp else SendRequest (mRTPSessionID s) ?rtp]"
    using flush_out [of cfg clk td ?s1] by simp
  have l12: "12 \<le> length (bdata ?q)" "12 \<le> bsize ?q" "bsize ?q \<le> length (bdata ?q)"
    using qok by (simp_all add: queue_ok_def capacity_def)
  have lenrtp: "length ?rtp = bsize (mTSQueue s) + 188"
    using l12 by simp
  have f: "U16_AT (drop 2 ?rtp) = ucast (mRTPSeqNo s)"
     "U32_AT (drop 4 ?rtp) = ?t" "U32_AT (drop 8 ?rtp) = kSourceID cfg"
     "?rtp ! 0 = 0x80" "?rtp ! 1 = 33 OR (if td then push_bit 7 1 else 0)"
    using stamped_fields [OF l12(1) l12(2), of cfg td "mRTPSeqNo s" ?t] by blast+
  have b0: "bsize (mTSQueue s) \<le> length (bdata (mTSQueue s))" "12 \<le> bsize (mTSQueue s)"
    using q0 by (simp_all add: queue_ok_def capacity_def)
  have tk: "take (bsize ?q) (bdata ?q) = contents (mTSQueue s) @ take 188 data"
    using take_memcpy [OF b0(1), of "take 188 data"] len by (simp add: contents_def)
  have "drop 12 ?rtp = take (bsize ?q - 12) (drop 12 (stampHeader cfg td (mRTPSeqNo s) ?t (bdata ?q)))"
    by (simp only: drop_take)
  also have "\<dots> = drop 12 (take (bsize ?q) (bdata ?q))"
    by (simp only: stampHeader_drop12 drop_take)
  also have "\<dots> = drop 12 (contents (mTSQueue s)) @ take 188 data"
    unfolding tk using b0 by (simp add: contents_def)
  finally have payload: "drop 12 ?rtp = drop 12 (contents (mTSQueue s)) @ take 188 data" .
  show ?thesis
    apply (rule exI [of _ ?rtp])
    apply (intro conjI)
    apply (rule out)
    apply (rule lenrtp)
    apply (rule f(4))
    apply (rule f(5))
    apply (rule f(1))
    apply (rule f(2))
    apply (rule f(3))
    apply (rule payload)
    done
qed

text \<open>
  C1. A call of \<open>appendTSData\<close> with a 188-byte packet that fits returns, and it flushes
  if and only if \<open>flush\<close> is set or the append fills the buffer. A flush hands exactly
  one packet to the transport (a send request, or a binary-data notification in
  interleaved mode) and advances the sequence number; the packet is the queued bytes with
  the RTP header stamped on them (first byte 0x80, payload type 33 with the marker bit
  \<open>timeDiscontinuity\<close>, the sequence number, the timestamp and the source ID) and the
  appended TS packet at the end. Without a flush nothing is handed out and only the queue
  buffer changes: the TS packet is appended to its contents. The buffer's length stays 12
  plus a multiple of 188, within the capacity of 12 plus 188 times the largest number of
  TS packets that fit under 1500 bytes, and is 12 after a flush.
\<close>

theorem appendTSData_flush_iff:
  assumes "queueInv s" and "bsize (mTSQueue s) + 188 \<le> capacity (mTSQueue s)"
    and "188 \<le> length data"
  shows "case appendTSData cfg clk data 188 timeDiscontinuity flush s of
           Inl e \<Rightarrow> False
         | Inr (s', out) \<Rightarrow>
             (out \<noteq> [] \<longleftrightarrow> flush \<or> bsize (mTSQueue s) + 188 = capacity (mTSQueue s))
           \<and> mRTPSeqNo s' = (if out = [] then mRTPSeqNo s else mRTPSeqNo s + 1)
           \<and> (if out = []
               then bsize (mTSQueue s') = bsize (mTSQueue s) + 188
                    \<and> contents (mTSQueue s') = contents (mTSQueue s) @ take 188 data
                    \<and> s' = s\<lparr>mTSQueue := mTSQueue s'\<rparr>
               else bsize (mTSQueue s') = 12 \<and>
                    (\<exists>rtp. length rtp = bsize (mTSQueue s) + 188 \<and>
                      out = [if mTransportMode s = TRANSPORT_TCP_INTERLEAVED
                             then NotifyBinaryData (mRTPChannel s) rtp
                             else SendRequest (mRTPSessionID s) rtp]
                      \<and> rtp ! 0 = 0x80
                      \<and> (rtp ! 1) AND 0x7f = 33
                      \<and> bit (rtp ! 1) 7 = timeDiscontinuity
                      \<and> U16_AT (drop 2 rtp) = ucast (mRTPSeqNo s)
                      \<and> U32_AT (drop 4 rtp) = rtpTimeOf (clk (nowReads s))
                      \<and> U32_AT (drop 8 rtp) = kSourceID cfg
                      \<and> drop 12 rtp = drop 12 (contents (mTSQueue s)) @ take 188 data))
           \<and> 12 \<le> bsize (mTSQueue s') \<and> (bsize (mTSQueue s') - 12) mod 188 = 0
           \<and> bsize (mTSQueue s') + 188 \<le> capacity (mTSQueue s')
           \<and> capacity (mTSQueue s') = 12 + kMaxNumTSPacketsPerRTPPacket * 188
           \<and> 12 + kMaxNumTSPacketsPerRTPPacket * 188 \<le> 1500
           \<and> 1500 < 12 + (kMaxNumTSPacketsPerRTPPacket + 1) * 188
           \<and> queueInv s'"
proof -
  let ?q = "(mTSQueue s)\<lparr>bdata := memcpy (bdata (mTSQueue s)) (bsize (mTSQueue s)) (take 188 data),
                         bsize := bsize (mTSQueue s) + 188\<rparr>"
  let ?s1 = "s\<lparr>mTSQueue := ?q\<rparr>"
  have len: "length (take 188 data) = 188" using assms(3) by simp
  have qok: "queue_ok ?q"
    using queue_ok_append [OF _ assms(2) len] assms(1) by (simp add: queueInv_def)
  have inv1: "queueInv ?s1" using qok assms(1) by (simp add: queueInv_def)
  have cap1: "capacity ?q = capacity (mTSQueue s)"
    using assms(2) len by (simp add: capacity_def length_memcpy)
  have capC: "capacity ?q = 12 + kMaxNumTSPacketsPerRTPPacket * 188"
    using qok by (simp add: queue_ok_def tsQueueCapacity_def)
  have cst: "12 + kMaxNumTSPacketsPerRTPPacket * 188 \<le> 1500"
     "1500 < 12 + (kMaxNumTSPacketsPerRTPPacket + 1) * 188"
    by (simp_all add: kMaxNumTSPacketsPerRTPPacket_def kMaxRTPPacketSize_def)
  show ?thesis
  proof (cases "flush \<or> bsize (mTSQueue s) + 188 = capacity (mTSQueue s)")
    case True
    let ?r = "appendTSData_flush cfg clk timeDiscontinuity ?s1"
    have run: "appendTSData cfg clk data 188 timeDiscontinuity flush s = Inr ?r"
      using True assms(2,3) cap1 by (auto simp: appendTSData_def Let_def)
    obtain rtp where rtp: "snd ?r = [if mTransportMode s = TRANSPORT_TCP_INTERLEAVED
                   then NotifyBinaryData (mRTPChannel s) rtp
                   else SendRequest (mRTPSessionID s) rtp]"
           "length rtp = bsize (mTSQueue s) + 188"
           "rtp ! 0 = 0x80"
           "rtp ! 1 = 33 OR (if timeDiscontinuity then push_bit 7 1 else 0)"
           "U16_AT (drop 2 rtp) = ucast (mRTPSeqNo s)"
           "U32_AT (drop 4 rtp) = rtpTimeOf (clk (nowReads s))"
           "U32_AT (drop 8 rtp) = kSourceID cfg"
           "drop 12 rtp = drop 12 (contents (mTSQueue s)) @ take 188 data"
      using flushed_packet [OF assms, of cfg clk timeDiscontinuity] by blast
    have mk: "(rtp ! 1) AND 0x7f = 33" "bit (rtp ! 1) 7 = timeDiscontinuity"
      by (simp_all only: rtp(4) marker_byte)
    have ex: "\<exists>rtp. length rtp = bsize (mTSQueue s) + 188 \<and>
                      snd ?r = [if mTransportMode s = TRANSPORT_TCP_INTERLEAVED
                             then NotifyBinaryData (mRTPChannel s) rtp
                             else SendRequest (mRTPSessionID s) rtp]
                      \<and> rtp ! 0 = 0x80
                      \<and> (rtp ! 1) AND 0x7f = 33
                      \<and> bit (rtp ! 1) 7 = timeDiscontinuity
                      \<and> U16_AT (drop 2 rtp) = ucast (mRTPSeqNo s)
                      \<and> U32_AT (drop 4 rtp) = rtpTimeOf (clk (nowReads s))
                      \<and> U32_AT (drop 8 rtp) = kSourceID cfg
                      \<and> drop 12 rtp = drop 12 (contents (mTSQueue s)) @ take 188 data"
      using rtp(1,2,3,5,6,7,8) mk by blast
    have ne: "snd ?r \<noteq> []" using rtp(1) by simp
    have seq: "mRTPSeqNo (fst ?r) = mRTPSeqNo s + 1"
      using flush_seq [of cfg clk timeDiscontinuity ?s1] by simp
    have b12: "bsize (mTSQueue (fst ?r)) = 12" by (rule flush_bsize)
    have inv': "queueInv (fst ?r)" "hasRoom (fst ?r)" using queueInv_flush [OF inv1] by simp_all
    have cap': "capacity (mTSQueue (fst ?r)) = 12 + kMaxNumTSPacketsPerRTPPacket * 188"
      using inv'(1) by (simp add: queueInv_def queue_ok_def tsQueueCapacity_def)
    have room': "bsize (mTSQueue (fst ?r)) + 188 \<le> capacity (mTSQueue (fst ?r))"
      using inv'(2) by (simp add: hasRoom_def)
    show ?thesis
      unfolding run
      apply (simp only: sum.case prod.case_eq_if ne if_False not_False_eq_True b12 seq)
      using True ex inv'(1) cap' cst room' b12
      by simp
  next
    case False
    have run: "appendTSData cfg clk data 188 timeDiscontinuity flush s = Inr (?s1, [])"
      using False assms(2,3) cap1 by (auto simp: appendTSData_def Let_def)
    have room: "bsize ?q + 188 \<le> capacity ?q"
      using queue_ok_room [OF qok] False cap1 by simp
    have b0: "bsize (mTSQueue s) \<le> length (bdata (mTSQueue s))"
      using assms(1) by (simp add: queueInv_def queue_ok_def capacity_def)
    have tk: "contents ?q = contents (mTSQueue s) @ take 188 data"
      using take_memcpy [OF b0, of "take 188 data"] len by (simp add: contents_def)
    show ?thesis
      unfolding run
      using False qok room capC cst inv1 tk
      by (simp add: queue_ok_def)
  qed
qed

theorem appendTSData_flush_iff_witness:
  "queueInv Sender_new \<and> bsize (mTSQueue Sender_new) + 188 \<le> capacity (mTSQueue Sender_new)
   \<and> 188 \<le> length (replicate 188 (0::byte))
   \<and> (case appendTSData exampleConfig zeroClock (replicate 188 0) 188 True True Sender_new of
           Inl e \<Rightarrow> False
         | Inr (s', out) \<Rightarrow>
             (\<exists>rtp. out = [SendRequest 0 rtp] \<and> length rtp = 200 \<and> rtp ! 0 = 0x80
                \<and> (rtp ! 1) AND 0x7f = 33 \<and> bit (rtp ! 1) 7
                \<and> U16_AT (drop 2 rtp) = 0 \<and> U32_AT (drop 4 rtp) = 0
                \<and> U32_AT (drop 8 rtp) = 0xdeadbeef \<and> drop 12 rtp = replicate 188 0)
             \<and> mRTPSeqNo s' = 1 \<and> bsize (mTSQueue s') = 12 \<and> queueInv s')"
proof -
  have h1: "queueInv Sender_new" by (rule queueInv_Sender_new)
  have h2: "bsize (mTSQueue Sender_new) + 188 \<le> capacity (mTSQueue Sender_new)"
    using hasRoom_Sender_new by (simp add: hasRoom_def)
  have h3: "188 \<le> length (replicate 188 (0::byte))" by simp
  have m: "mRTPSeqNo Sender_new = 0" "mTransportMode Sender_new = TRANSPORT_UDP"
     "mRTPSessionID Sender_new = 0" "bsize (mTSQueue Sender_new) = 12"
     "contents (mTSQueue Sender_new) = replicate 12 0"
     "kSourceID exampleConfig = 0xdeadbeef" "nowReads Sender_new = 0"
    by (simp_all add: Sender_new_def new_ABuffer_def contents_def exampleConfig_def)
  have t: "rtpTimeOf (zeroClock 0) = 0" by (simp add: rtpTimeOf_def zeroClock_def)
  show ?thesis
    using h1 h2 h3
      appendTSData_flush_iff [OF h1 h2 h3, where cfg = exampleConfig and clk = zeroClock and timeDiscontinuity = True and flush = True]
    unfolding m t
    by (auto split: sum.splits prod.splits if_splits)
qed

text \<open>
  C2. A flush performed by \<open>appendTSData\<close> hands out one packet whose first byte is
  0x80 (version 2, no padding, no extension, no CSRC), whose second byte carries payload
  type 33 and the marker bit \<open>timeDiscontinuity\<close>, whose bytes 2-3 are the low 16 bits
  of the current sequence number, big-endian, whose bytes 4-7 are the 90 kHz timestamp
  and whose bytes 8-11 are the source ID; the rest is the queued payload. The flush adds
  one to the sequence number and to the packet count, and the payload size (packet size
  minus 12) to the octet count.
\<close>

theorem flush_rtp_header:
  assumes "queueInv s" and "bsize (mTSQueue s) + 188 \<le> capacity (mTSQueue s)"
    and "188 \<le> length data"
    and "flush \<or> bsize (mTSQueue s) + 188 = capacity (mTSQueue s)"
  shows "case appendTSData cfg clk data 188 timeDiscontinuity flush s of
           Inl e \<Rightarrow> False
         | Inr (s', out) \<Rightarrow>
             (\<exists>rtp. out = [if mTransportMode s = TRANSPORT_TCP_INTERLEAVED
                            then NotifyBinaryData (mRTPChannel s) rtp
                            else SendRequest (mRTPSessionID s) rtp]
                \<and> length rtp = bsize (mTSQueue s) + 188
                \<and> rtp ! 0 = 0x80
                \<and> drop_bit 6 (rtp ! 0) = 2 \<and> \<not> bit (rtp ! 0) 5 \<and> \<not> bit (rtp ! 0) 4
                \<and> (rtp ! 0) AND 0xf = 0
                \<and> (rtp ! 1) AND 0x7f = 33
                \<and> bit (rtp ! 1) 7 = timeDiscontinuity
                \<and> U16_AT (drop 2 rtp) = ucast (mRTPSeqNo s)
                \<and> U32_AT (drop 4 rtp) = rtpTimeOf (clk (nowReads s))
                \<and> (0 \<le> sint (clk (nowReads s)) \<and> sint (clk (nowReads s)) < 2 ^ 59 \<longrightarrow>
                     uint (U32_AT (drop 4 rtp)) = (sint (clk (nowReads s)) * 9 div 100) mod 2 ^ 32)
                \<and> U32_AT (drop 8 rtp) = kSourceID cfg
                \<and> drop 12 rtp = drop 12 (contents (mTSQueue s)) @ take 188 data
                \<and> mNumRTPOctetsSent s' = mNumRTPOctetsSent s + of_nat (length rtp - 12))
           \<and> mRTPSeqNo s' = mRTPSeqNo s + 1
           \<and> mNumRTPSent s' = mNumRTPSent s + 1
           \<and> mLastRTPTime s' = rtpTimeOf (clk (nowReads s))"
proof -
  let ?q = "(mTSQueue s)\<lparr>bdata := memcpy (bdata (mTSQueue s)) (bsize (mTSQueue s)) (take 188 data),
                         bsize := bsize (mTSQueue s) + 188\<rparr>"
  let ?s1 = "s\<lparr>mTSQueue := ?q\<rparr>"
  let ?t = "rtpTimeOf (clk (nowReads s))"
  let ?rtp = "take (bsize ?q) (stampHeader cfg timeDiscontinuity (mRTPSeqNo s) ?t (bdata ?q))"
  let ?r = "appendTSData_flush cfg clk timeDiscontinuity ?s1"
  have len: "length (take 188 data) = 188" using assms(3) by simp
  have q0: "queue_ok (mTSQueue s)" using assms(1) by (simp add: queueInv_def)
  have qok: "queue_ok ?q" using queue_ok_append [OF q0 assms(2) len] .
  have cap1: "capacity ?q = capacity (mTSQueue s)"
    using assms(2) len by (simp add: capacity_def length_memcpy)
  have run: "appendTSData cfg clk data 188 timeDiscontinuity flush s = Inr ?r"
    using assms(2,3,4) cap1 by (auto simp: appendTSData_def Let_def)
  have out: "snd ?r = [if mTransportMode s = TRANSPORT_TCP_INTERLEAVED
         then NotifyBinaryData (mRTPChannel s) ?rtp else SendRequest (mRTPSessionID s) ?rtp]"
    using flush_out [of cfg clk timeDiscontinuity ?s1] by simp
  have l12: "12 \<le> length (bdata ?q)" "12 \<le> bsize ?q" "bsize ?q \<le> length (bdata ?q)"
    using qok by (simp_all add: queue_ok_def capacity_def)
  have lenrtp: "length ?rtp = bsize (mTSQueue s) + 188"
    using l12 by simp
  have f: "U16_AT (drop 2 ?rtp) = ucast (mRTPSeqNo s)"
     "U32_AT (drop 4 ?rtp) = ?t" "U32_AT (drop 8 ?rtp) = kSourceID cfg"
     "?rtp ! 0 = 0x80" "?rtp ! 1 = 33 OR (if timeDiscontinuity then push_bit 7 1 else 0)"
    using stamped_fields [OF l12(1) l12(2), of cfg timeDiscontinuity "mRTPSeqNo s" ?t] by blast+
  have "bsize (mTSQueue s) \<le> length (bdata (mTSQueue s))" "12 \<le> bsize (mTSQueue s)"
    using q0 by (simp_all add: queue_ok_def capacity_def)
  note b0 = this
  have tk: "take (bsize ?q) (bdata ?q) = contents (mTSQueue s) @ take 188 data"
    using take_memcpy [OF b0(1), of "take 188 data"] len by (simp add: contents_def)
  have "drop 12 ?rtp = take (bsize ?q - 12) (drop 12 (stampHeader cfg timeDiscontinuity (mRTPSeqNo s) ?t (bdata ?q)))"
    by (simp only: drop_take)
  also have "\<dots> = drop 12 (take (bsize ?q) (bdata ?q))"
    by (simp only: stampHeader_drop12 drop_take)
  also have "\<dots> = drop 12 (contents (mTSQueue s)) @ take 188 data"
    unfolding tk using b0 by (simp add: contents_def)
  finally have payload: "drop 12 ?rtp = drop 12 (contents (mTSQueue s)) @ take 188 data" .
  have cnt: "mRTPSeqNo (fst ?r) = mRTPSeqNo s + 1" "mNumRTPSent (fst ?r) = mNumRTPSent s + 1"
    "mNumRTPOctetsSent (fst ?r) = mNumRTPOctetsSent s + of_nat (length ?rtp - 12)"
    "mLastRTPTime (fst ?r) = ?t"
    using flush_seq [of cfg clk timeDiscontinuity ?s1] flush_counters [of cfg clk timeDiscontinuity ?s1]
    unfolding lenrtp by simp_all
  have t90: "0 \<le> sint (clk (nowReads s)) \<and> sint (clk (nowReads s)) < 2 ^ 59 \<longrightarrow>
                     uint (U32_AT (drop 4 ?rtp)) = (sint (clk (nowReads s)) * 9 div 100) mod 2 ^ 32"
    unfolding f(2) using rtpTimeOf_90kHz [of "clk (nowReads s)"] by blast
  have ex: "\<exists>rtp. snd ?r = [if mTransportMode s = TRANSPORT_TCP_INTERLEAVED
                            then NotifyBinaryData (mRTPChannel s) rtp
                            else SendRequest (mRTPSessionID s) rtp]
                \<and> length rtp = bsize (mTSQueue s) + 188
                \<and> rtp ! 0 = 0x80
                \<and> drop_bit 6 (rtp ! 0) = 2 \<and> \<not> bit (rtp ! 0) 5 \<and> \<not> bit (rtp ! 0) 4
                \<and> (rtp ! 0) AND 0xf = 0
                \<and> (rtp ! 1) AND 0x7f = 33
                \<and> bit (rtp ! 1) 7 = timeDiscontinuity
                \<and> U16_AT (drop 2 rtp) = ucast (mRTPSeqNo s)
                \<and> U32_AT (drop 4 rtp) = rtpTimeOf (clk (nowReads s))
                \<and> (0 \<le> sint (clk (nowReads s)) \<and> sint (clk (nowReads s)) < 2 ^ 59 \<longrightarrow>
                     uint (U32_AT (drop 4 rtp)) = (sint (clk (nowReads s)) * 9 div 100) mod 2 ^ 32)
                \<and> U32_AT (drop 8 rtp) = kSourceID cfg
                \<and> drop 12 rtp = drop 12 (contents (mTSQueue s)) @ take 188 data
                \<and> mNumRTPOctetsSent (fst ?r) = mNumRTPOctetsSent s + of_nat (length rtp - 12)"
    apply (rule exI [of _ ?rtp])
    apply (intro conjI)
    apply (rule out)
    apply (rule lenrtp)
    apply (rule f(4))
    apply (simp only: f(4) first_byte)
    apply (simp only: f(4) first_byte not_False_eq_True)
    apply (simp only: f(4) first_byte not_False_eq_True)
    apply (simp only: f(4) first_byte)
    apply (simp only: f(5) marker_byte)
    apply (simp only: f(5) marker_byte)
    apply (rule f(1))
    apply (rule f(2))
    apply (rule t90)
    apply (rule f(3))
    apply (rule payload)
    apply (rule cnt(3))
    done
  show ?thesis
    unfolding run
    apply (simp only: sum.case prod.case_eq_if)
    using ex cnt(1,2,4) by blast
qed

theorem flush_rtp_header_witness:
  "queueInv Sender_new \<and> bsize (mTSQueue Sender_new) + 188 \<le> capacity (mTSQueue Sender_new)
   \<and> 188 \<le> length (replicate 188 (0::byte))
   \<and> (case appendTSData exampleConfig zeroClock (replicate 188 0) 188 True True Sender_new of
           Inl e \<Rightarrow> False
         | Inr (s', out) \<Rightarrow> mRTPSeqNo s' = 1 \<and> mNumRTPSent s' = 1 \<and> length out = 1)"
proof -
  have h1: "queueInv Sender_new" by (rule queueInv_Sender_new)
  have h2: "bsize (mTSQueue Sender_new) + 188 \<le> capacity (mTSQueue Sender_new)"
    using hasRoom_Sender_new by (simp add: hasRoom_def)
  have h3: "188 \<le> length (replicate 188 (0::byte))" by simp
  have m: "mRTPSeqNo Sender_new = 0" "mNumRTPSent Sender_new = 0" by (simp_all add: Sender_new_def)
  show ?thesis
    using h1 h2 h3 m
      flush_rtp_header [OF h1 h2 h3, where cfg = exampleConfig and clk = zeroClock
        and timeDiscontinuity = True and flush = True]
    by (auto split: sum.splits prod.splits)
qed

section \<open>Sequence numbers across batches\<close>

lemma consecutiveFrom_nth:
  "consecutiveFrom c out \<longleftrightarrow> (\<forall>i<length out. seqNoOf (out ! i) = c + of_nat i)"
  unfolding consecutiveFrom_def by (subst list_eq_iff_nth_eq) simp

lemma consecutiveFrom_Nil [simp]: "consecutiveFrom c []"
  by (simp add: consecutiveFrom_def)

lemma consecutiveFrom_single: "consecutiveFrom c [e] \<longleftrightarrow> seqNoOf e = c"
  by (simp add: consecutiveFrom_nth)

lemma consecutiveFrom_append:
  assumes "consecutiveFrom c xs" "consecutiveFrom (c + of_nat (length xs)) ys"
  shows "consecutiveFrom c (xs @ ys)"
  unfolding consecutiveFrom_nth
proof (intro allI impI)
  fix i assume i: "i < length (xs @ ys)"
  show "seqNoOf ((xs @ ys) ! i) = c + of_nat i"
  proof (cases "i < length xs")
    case True
    with assms(1) show ?thesis by (simp add: consecutiveFrom_nth nth_append)
  next
    case False
    then have j: "i - length xs < length ys" "i = length xs + (i - length xs)" using i by auto
    have "seqNoOf (ys ! (i - length xs)) = c + of_nat (length xs) + of_nat (i - length xs)"
      using assms(2) j(1) by (simp add: consecutiveFrom_nth)
    also have "\<dots> = c + of_nat (length xs + (i - length xs))"
      by (simp only: of_nat_add add.assoc)
    also have "\<dots> = c + of_nat i" using j(2) by simp
    finally show ?thesis using False by (simp add: nth_append)
  qed
qed

lemma consecutiveFrom_step:
  assumes "consecutiveFrom c out" "Suc i < length out"
  shows "seqNoOf (out ! Suc i) = seqNoOf (out ! i) + 1"
proof -
  from assms have "seqNoOf (out ! Suc i) = c + of_nat (Suc i)" "seqNoOf (out ! i) = c + of_nat i"
    by (simp_all add: consecutiveFrom_nth)
  then show ?thesis by simp
qed

text \<open>One call of appendTSData, as the batch loop needs it.\<close>

lemma appendTSData_run:
  assumes "queueInv s" "hasRoom s" "188 \<le> length data"
  shows "\<exists>s' out. appendTSData cfg clk data 188 td flush s = Inr (s', out)
           \<and> queueInv s' \<and> hasRoom s'
           \<and> mRTPSeqNo s' = mRTPSeqNo s + of_nat (length out)
           \<and> consecutiveFrom (ucast (mRTPSeqNo s)) out
           \<and> (flush \<longrightarrow> bsize (mTSQueue s') = 12)"
proof -
  let ?q = "(mTSQueue s)\<lparr>bdata := memcpy (bdata (mTSQueue s)) (bsize (mTSQueue s)) (take 188 data),
                         bsize := bsize (mTSQueue s) + 188\<rparr>"
  let ?s1 = "s\<lparr>mTSQueue := ?q\<rparr>"
  have fits: "bsize (mTSQueue s) + 188 \<le> capacity (mTSQueue s)"
    using assms(2) by (simp add: hasRoom_def)
  have len: "length (take 188 data) = 188" using assms(3) by simp
  have q0: "queue_ok (mTSQueue s)" using assms(1) by (simp add: queueInv_def)
  have qok: "queue_ok ?q" using queue_ok_append [OF q0 fits len] .
  have inv1: "queueInv ?s1" using qok assms(1) by (simp add: queueInv_def)
  have cap1: "capacity ?q = capacity (mTSQueue s)"
    using fits len by (simp add: capacity_def length_memcpy)
  show ?thesis
  proof (cases "flush \<or> bsize (mTSQueue s) + 188 = capacity (mTSQueue s)")
    case True
    let ?r = "appendTSData_flush cfg clk td ?s1"
    let ?rtp = "take (bsize ?q) (stampHeader cfg td (mRTPSeqNo s) (rtpTimeOf (clk (nowReads s))) (bdata ?q))"
    have run: "appendTSData cfg clk data 188 td flush s = Inr (fst ?r, snd ?r)"
      using True fits assms(3) cap1 by (auto simp: appendTSData_def Let_def)
    have out: "snd ?r = [if mTransportMode s = TRANSPORT_TCP_INTERLEAVED
         then NotifyBinaryData (mRTPChannel s) ?rtp else SendRequest (mRTPSessionID s) ?rtp]"
      using flush_out [of cfg clk td ?s1] by simp
    have l12: "12 \<le> length (bdata ?q)" "12 \<le> bsize ?q"
      using qok by (simp_all add: queue_ok_def capacity_def)
    have sq: "U16_AT (drop 2 ?rtp) = ucast (mRTPSeqNo s)"
      using stamped_fields(1) [OF l12] .
    have c: "consecutiveFrom (ucast (mRTPSeqNo s)) (snd ?r)"
      unfolding out consecutiveFrom_single seqNoOf_def using sq by simp
    have n: "length (snd ?r) = 1" unfolding out by simp
    have seq: "mRTPSeqNo (fst ?r) = mRTPSeqNo s + of_nat (length (snd ?r))"
      unfolding n using flush_seq [of cfg clk td ?s1] by simp
    have i: "queueInv (fst ?r)" and h: "hasRoom (fst ?r)"
      using queueInv_flush [OF inv1] by simp_all
    have b: "flush \<longrightarrow> bsize (mTSQueue (fst ?r)) = 12"
      using flush_bsize [of cfg clk td ?s1] by simp
    show ?thesis
      apply (rule exI [of _ "fst ?r"])
      apply (rule exI [of _ "snd ?r"])
      apply (intro conjI)
           apply (rule run)
          apply (rule i)
         apply (rule h)
        apply (rule seq)
       apply (rule c)
      apply (rule b)
      done
  next
    case False
    have run: "appendTSData cfg clk data 188 td flush s = Inr (?s1, [])"
      using False fits assms(3) cap1 by (auto simp: appendTSData_def Let_def)
    have room: "hasRoom ?s1"
      using queue_ok_room [OF qok] False cap1 by (simp add: hasRoom_def)
    from False have nf: "flush \<longrightarrow> bsize (mTSQueue ?s1) = 12" by simp
    have seq: "mRTPSeqNo ?s1 = mRTPSeqNo s + of_nat (length ([] :: emitted list))" by simp
    show ?thesis
      apply (rule exI [of _ ?s1])
      apply (rule exI [of _ "[]"])
      apply (intro conjI)
           apply (rule run)
          apply (rule inv1)
         apply (rule room)
        apply (rule seq)
       apply (rule consecutiveFrom_Nil)
      apply (rule nf)
      done
  qed
qed

lemma batchRun_refl: "queueInv s \<Longrightarrow> hasRoom s \<Longrightarrow> batchRun s s []"
  by (simp add: batchRun_def)

lemma batchRun_trans:
  assumes "batchRun s s1 out1" "batchRun s1 s2 out2"
  shows "batchRun s s2 (out1 @ out2)"
proof -
  have u: "(ucast (mRTPSeqNo s1) :: 16 word) = ucast (mRTPSeqNo s) + of_nat (length out1)"
    using assms(1) by (simp add: batchRun_def ucast_down_add ucast_down_of_nat)
  have "consecutiveFrom (ucast (mRTPSeqNo s)) (out1 @ out2)"
    using assms u by (intro consecutiveFrom_append) (simp_all add: batchRun_def)
  moreover have "mRTPSeqNo s2 = mRTPSeqNo s + of_nat (length (out1 @ out2))"
    using assms by (simp add: batchRun_def)
  ultimately show ?thesis using assms(2) by (simp add: batchRun_def)
qed

lemma appendTSData_batchRun:
  assumes "queueInv s" "hasRoom s" "188 \<le> length data"
  shows "\<exists>s' out. appendTSData cfg clk data 188 td flush s = Inr (s', out) \<and> batchRun s s' out"
  using appendTSData_run [OF assms, of cfg clk td flush] unfolding batchRun_def by blast

lemma onQueuePackets_loop_run:
  assumes "queueInv s" "hasRoom s" "offset \<le> length packets" "(length packets - offset) mod 188 = 0"
  shows "\<exists>s' out. onQueuePackets_loop cfg clk packets offset s = Inr (s', out) \<and> batchRun s s' out"
  using assms
proof (induction cfg clk packets offset s rule: onQueuePackets_loop.induct)
  case (1 cfg clk packets offset s)
  show ?case
  proof (cases "offset < length packets")
    case False
    then have "onQueuePackets_loop cfg clk packets offset s = Inr (s, [])"
      by (subst onQueuePackets_loop.simps) simp
    with batchRun_refl [OF "1.prems"(1,2)] show ?thesis by blast
  next
    case True
    have ge: "188 \<le> length packets - offset"
    proof (rule ccontr)
      assume "\<not> 188 \<le> length packets - offset"
      then have "(length packets - offset) mod 188 = length packets - offset" by simp
      with "1.prems"(4) True show False by simp
    qed
    then have len: "188 \<le> length (drop offset packets)" by simp
    from appendTSData_batchRun [OF "1.prems"(1,2) len, of cfg clk True "length packets \<le> offset + 188"]
    obtain s1 out1 where
      a: "appendTSData cfg clk (drop offset packets) 188 True (length packets \<le> offset + 188) s = Inr (s1, out1)"
      and r1: "batchRun s s1 out1" by blast
    have p3: "offset + 188 \<le> length packets" using ge True by simp
    have p4: "(length packets - (offset + 188)) mod 188 = 0"
    proof -
      have "length packets - (offset + 188) = (length packets - offset) - 188" by simp
      then show ?thesis using "1.prems"(4) le_mod_geq [OF ge] by simp
    qed
    from r1 have i1: "queueInv s1" "hasRoom s1" by (simp_all add: batchRun_def)
    from "1.IH" [OF True refl a [symmetric, THEN sym] refl i1 p3 p4]
    obtain s2 out2 where
      b: "onQueuePackets_loop cfg clk packets (offset + 188) s1 = Inr (s2, out2)"
      and r2: "batchRun s1 s2 out2" by blast
    have "onQueuePackets_loop cfg clk packets offset s = Inr (s2, out1 @ out2)"
      using True a b by (subst onQueuePackets_loop.simps) simp
    with batchRun_trans [OF r1 r2] show ?thesis by blast
  qed
qed

lemma onQueuePackets_run:
  assumes "queueInv s" "hasRoom s" "length packets mod 188 = 0"
  shows "\<exists>s' out. onQueuePackets cfg clk packets s = Inr (s', out) \<and> batchRun s s' out"
proof -
  let ?s0 = "s\<lparr>nowReads := Suc (nowReads s)\<rparr>"
  have i0: "queueInv ?s0" "hasRoom ?s0" using assms(1,2) by (simp_all add: queueInv_def hasRoom_def)
  from onQueuePackets_loop_run [OF i0, of 0 packets cfg clk] assms(3)
  obtain s' out where r: "onQueuePackets_loop cfg clk packets 0 ?s0 = Inr (s', out)"
    and b: "batchRun ?s0 s' out" by auto
  have "onQueuePackets cfg clk packets s = Inr (s', out)"
    using r by (simp add: onQueuePackets_def GetNowUs_def)
  moreover have "batchRun s s' out" using b by (simp add: batchRun_def)
  ultimately show ?thesis by blast
qed

lemma deliverQueuePackets_run:
  assumes "queueInv s" "hasRoom s" "list_all (\<lambda>p. length p mod 188 = 0) batches"
  shows "\<exists>s' out. deliverQueuePackets cfg clk batches s = Inr (s', out) \<and> batchRun s s' out"
  using assms
proof (induction batches arbitrary: s)
  case Nil
  then show ?case using batchRun_refl by simp
next
  case (Cons p rest)
  from Cons.prems(3) have p: "length p mod 188 = 0" and rest: "list_all (\<lambda>p. length p mod 188 = 0) rest"
    by simp_all
  from onQueuePackets_run [OF Cons.prems(1,2) p, of cfg clk]
  obtain s1 out1 where a: "onQueuePackets cfg clk p s = Inr (s1, out1)" and r1: "batchRun s s1 out1"
    by blast
  from r1 have i1: "queueInv s1" "hasRoom s1" by (simp_all add: batchRun_def)
  from Cons.IH [OF i1 rest]
  obtain s2 out2 where b: "deliverQueuePackets cfg clk rest s1 = Inr (s2, out2)" and r2: "batchRun s1 s2 out2"
    by blast
  have "deliverQueuePackets cfg clk (p # rest) s = Inr (s2, out1 @ out2)"
    using a b by simp
  with batchRun_trans [OF r1 r2] show ?case by blast
qed

text \<open>
  C3. For every sequence of enqueued batches of whole TS packets, delivered in order, the
  16-bit sequence numbers carried by consecutively flushed RTP packets increase by
  exactly 1 modulo 65536, whatever the grouping into batches; the packetizer never fails
  on the way.
\<close>

theorem rtp_sequence_numbers_consecutive:
  assumes "queueInv s" and "hasRoom s" and "list_all (\<lambda>p. length p mod 188 = 0) batches"
  shows "case deliverQueuePackets cfg clk batches s of
           Inl e \<Rightarrow> False
         | Inr (s', out) \<Rightarrow>
             (\<forall>i. Suc i < length out \<longrightarrow>
                    seqNoOf (out ! Suc i) = seqNoOf (out ! i) + 1
                  \<and> unat (seqNoOf (out ! Suc i)) = (unat (seqNoOf (out ! i)) + 1) mod 65536)
           \<and> map seqNoOf out = map (\<lambda>i. ucast (mRTPSeqNo s) + of_nat i) [0..<length out]
           \<and> mRTPSeqNo s' = mRTPSeqNo s + of_nat (length out)"
proof -
  from deliverQueuePackets_run [OF assms, of cfg clk]
  obtain s' out where r: "deliverQueuePackets cfg clk batches s = Inr (s', out)"
    and b: "batchRun s s' out" by blast
  from b have c: "consecutiveFrom (ucast (mRTPSeqNo s)) out"
    and m: "mRTPSeqNo s' = mRTPSeqNo s + of_nat (length out)" by (simp_all add: batchRun_def)
  have step: "seqNoOf (out ! Suc i) = seqNoOf (out ! i) + 1
       \<and> unat (seqNoOf (out ! Suc i)) = (unat (seqNoOf (out ! i)) + 1) mod 65536"
    if "Suc i < length out" for i
    using consecutiveFrom_step [OF c that] by (simp add: unat_word_ariths)
  then have stepAll: "\<forall>i. Suc i < length out \<longrightarrow>
                    seqNoOf (out ! Suc i) = seqNoOf (out ! i) + 1
                  \<and> unat (seqNoOf (out ! Suc i)) = (unat (seqNoOf (out ! i)) + 1) mod 65536"
    by blast
  have closed: "map seqNoOf out = map (\<lambda>i. ucast (mRTPSeqNo s) + of_nat i) [0..<length out]"
    using c by (simp only: consecutiveFrom_def)
  show ?thesis
    unfolding r
    apply (simp only: sum.case prod.case)
    apply (intro conjI)
      apply (rule stepAll)
     apply (rule closed)
    apply (rule m)
    done
qed

lemma twoBatches_eval:
  "(case deliverQueuePackets exampleConfig zeroClock twoBatches Sender_new of
      Inl e \<Rightarrow> [] | Inr (s', out) \<Rightarrow> map seqNoOf out) = [0, 1]"
  by code_simp

theorem rtp_sequence_numbers_consecutive_witness:
  "queueInv Sender_new \<and> hasRoom Sender_new \<and> list_all (\<lambda>p. length p mod 188 = 0) twoBatches
   \<and> (case deliverQueuePackets exampleConfig zeroClock twoBatches Sender_new of
         Inl e \<Rightarrow> False
       | Inr (s', out) \<Rightarrow> map seqNoOf out = [0, 1] \<and> mRTPSeqNo s' = 2)"
proof -
  have h1: "queueInv Sender_new" by (rule queueInv_Sender_new)
  have h2: "hasRoom Sender_new" by (rule hasRoom_Sender_new)
  have h3: "list_all (\<lambda>p. length p mod 188 = 0) twoBatches" by (simp add: twoBatches_def)
  have m: "mRTPSeqNo Sender_new = 0" by (simp add: Sender_new_def)
  have "case deliverQueuePackets exampleConfig zeroClock twoBatches Sender_new of
         Inl e \<Rightarrow> False
       | Inr (s', out) \<Rightarrow> map seqNoOf out = [0, 1] \<and> mRTPSeqNo s' = 2"
  proof (cases "deliverQueuePackets exampleConfig zeroClock twoBatches Sender_new")
    case (Inl e)
    with rtp_sequence_numbers_consecutive [OF h1 h2 h3, of exampleConfig zeroClock]
    show ?thesis by simp
  next
    case (Inr r)
    obtain s' out where r: "r = (s', out)" by (cases r)
    from twoBatches_eval Inr r have e: "map seqNoOf out = [0, 1]" by simp
    then have "length (map seqNoOf out) = 2" by simp
    then have l: "length out = 2" by simp
    from rtp_sequence_numbers_consecutive [OF h1 h2 h3, of exampleConfig zeroClock] Inr r
    have "mRTPSeqNo s' = mRTPSeqNo Sender_new + of_nat (length out)" by simp
    with l m have "mRTPSeqNo s' = 2" by simp
    with e Inr r show ?thesis by simp
  qed
  with h1 h2 h3 show ?thesis by blast
qed

section \<open>Pacing of queued batches\<close>

lemma sint_sub_small:
  assumes "- (2 ^ 62) < sint (a :: 64 word) - sint b" "sint a - sint (b :: 64 word) < 2 ^ 62"
  shows "sint (a - b) = sint a - sint b"
proof -
  have "sint (a - b) = signed_take_bit 63 (sint a - sint b)"
    by (simp add: sint_word_ariths)
  also have "\<dots> = sint a - sint b"
    using assms by (intro signed_take_bit_int_eq_self) auto
  finally show ?thesis .
qed

lemma sint_add_small:
  assumes "- (2 ^ 62) < sint (a :: 64 word) + sint b" "sint a + sint (b :: 64 word) < 2 ^ 62"
  shows "sint (a + b) = sint a + sint b"
proof -
  have "sint (a + b) = signed_take_bit 63 (sint a + sint b)"
    by (simp add: sint_word_ariths)
  also have "\<dots> = sint a + sint b"
    using assms by (intro signed_take_bit_int_eq_self) auto
  finally show ?thesis .
qed

lemma delay_small:
  assumes "smallTime t" "smallTime f" "smallTime snt" "smallTime now"
  shows "sint ((t - f) + snt - now) = sint t - sint f + sint snt - sint now"
proof -
  from assms have b: "- (2 ^ 60) < sint t" "sint t < 2 ^ 60" "- (2 ^ 60) < sint f" "sint f < 2 ^ 60"
    "- (2 ^ 60) < sint snt" "sint snt < 2 ^ 60" "- (2 ^ 60) < sint now" "sint now < 2 ^ 60"
    by (simp_all add: smallTime_def)
  have 1: "sint (t - f) = sint t - sint f" using b by (intro sint_sub_small) auto
  have 2: "sint ((t - f) + snt) = sint t - sint f + sint snt"
    using b 1 sint_add_small [of "t - f" snt] by auto
  have 3: "sint ((t - f) + snt - now) = sint ((t - f) + snt) - sint now"
    using b 2 by (intro sint_sub_small) auto
  show ?thesis using 2 3 by simp
qed

lemma queuePackets_first:
  assumes "sint (mFirstOutputBufferReadyTimeUs s) < 0"
  shows "queuePackets clk timeUs packets s =
     (s\<lparr>mFirstOutputBufferReadyTimeUs := timeUs, nowReads := Suc (nowReads s),
        mFirstOutputBufferSentTimeUs := clk (nowReads s)\<rparr>,
      \<lparr>postDelayUs = 0, msgPackets = packets, metaTimeUs = timeUs,
       metaWhenUs = clk (nowReads s), metaDelayUs = 0\<rparr>)"
  using assms by (simp add: queuePackets_def GetNowUs_def Let_def)

lemma queuePackets_later:
  assumes "\<not> sint (mFirstOutputBufferReadyTimeUs s) < 0"
  shows "queuePackets clk timeUs packets s =
     (s\<lparr>nowReads := Suc (nowReads s)\<rparr>,
      \<lparr>postDelayUs =
         (if sint ((timeUs - mFirstOutputBufferReadyTimeUs s) + mFirstOutputBufferSentTimeUs s - clk (nowReads s)) > 0
          then (timeUs - mFirstOutputBufferReadyTimeUs s) + mFirstOutputBufferSentTimeUs s - clk (nowReads s)
          else 0),
       msgPackets = packets, metaTimeUs = timeUs,
       metaWhenUs = (timeUs - mFirstOutputBufferReadyTimeUs s) + mFirstOutputBufferSentTimeUs s,
       metaDelayUs = (timeUs - mFirstOutputBufferReadyTimeUs s) + mFirstOutputBufferSentTimeUs s - clk (nowReads s)\<rparr>)"
  using assms by (simp add: queuePackets_def GetNowUs_def Let_def)

text \<open>
  C8. \<open>queuePackets\<close> returns at once with the message it posts to the looper, having
  read the clock once. The first call (the stored first presentation time is still
  negative, as the constructor leaves it) stores the call's presentation time and the
  current wall time as the anchors and posts with delay zero. When that presentation time
  is not negative, every later call, made on a sender that holds these anchors, leaves
  them alone and posts with the delay
  \<open>(timeUs - first presentation time) + first send time - now\<close>, or zero when that is
  not positive; for times within \<open>2 ^ 60\<close> microseconds of zero, for which the 64-bit
  sums do not wrap, the delay is \<open>max 0\<close> of that expression on integers.
\<close>

theorem queuePackets_pacing:
  assumes "sint (mFirstOutputBufferReadyTimeUs s) < 0"
  shows "case queuePackets clk t0 p0 s of (s0, m0) \<Rightarrow>
           postDelayUs m0 = 0 \<and> msgPackets m0 = p0
         \<and> s0 = s\<lparr>mFirstOutputBufferReadyTimeUs := t0, nowReads := Suc (nowReads s),
                   mFirstOutputBufferSentTimeUs := clk (nowReads s)\<rparr>
         \<and> (0 \<le> sint t0 \<longrightarrow>
             (\<forall>s1 timeUs p.
                mFirstOutputBufferReadyTimeUs s1 = mFirstOutputBufferReadyTimeUs s0
                \<and> mFirstOutputBufferSentTimeUs s1 = mFirstOutputBufferSentTimeUs s0 \<longrightarrow>
                (case queuePackets clk timeUs p s1 of (s2, m) \<Rightarrow>
                   msgPackets m = p
                 \<and> s2 = s1\<lparr>nowReads := Suc (nowReads s1)\<rparr>
                 \<and> postDelayUs m =
                     (let d = (timeUs - t0) + clk (nowReads s) - clk (nowReads s1)
                      in if 0 < sint d then d else 0)
                 \<and> (smallTime timeUs \<and> smallTime t0 \<and> smallTime (clk (nowReads s))
                      \<and> smallTime (clk (nowReads s1)) \<longrightarrow>
                      sint (postDelayUs m) =
                        max 0 ((sint timeUs - sint t0) + sint (clk (nowReads s))
                               - sint (clk (nowReads s1)))))))"
proof -
  let ?w0 = "clk (nowReads s)"
  have later: "case queuePackets clk timeUs p s1 of (s2, m) \<Rightarrow>
                 msgPackets m = p
               \<and> s2 = s1\<lparr>nowReads := Suc (nowReads s1)\<rparr>
               \<and> postDelayUs m =
                   (let d = (timeUs - t0) + ?w0 - clk (nowReads s1)
                    in if 0 < sint d then d else 0)
               \<and> (smallTime timeUs \<and> smallTime t0 \<and> smallTime ?w0
                    \<and> smallTime (clk (nowReads s1)) \<longrightarrow>
                    sint (postDelayUs m) =
                      max 0 ((sint timeUs - sint t0) + sint ?w0 - sint (clk (nowReads s1))))"
    if a: "mFirstOutputBufferReadyTimeUs s1 = t0" "mFirstOutputBufferSentTimeUs s1 = ?w0"
      and nn: "0 \<le> sint t0"
    for s1 timeUs p
  proof -
    have n: "\<not> sint (mFirstOutputBufferReadyTimeUs s1) < 0" using a(1) nn by simp
    have int: "sint (if 0 < sint ((timeUs - t0) + ?w0 - clk (nowReads s1))
                     then (timeUs - t0) + ?w0 - clk (nowReads s1) else 0) =
               max 0 ((sint timeUs - sint t0) + sint ?w0 - sint (clk (nowReads s1)))"
      if "smallTime timeUs" "smallTime t0" "smallTime ?w0" "smallTime (clk (nowReads s1))"
      using delay_small [OF that] by (simp add: max_def)
    show ?thesis
      unfolding queuePackets_later [OF n] a
      using int by (simp add: Let_def)
  qed
  show ?thesis
    unfolding queuePackets_first [OF assms(1)]
    using later by simp
qed

theorem queuePackets_pacing_witness:
  "sint (mFirstOutputBufferReadyTimeUs Sender_new) < 0
   \<and> 0 \<le> sint (1000 :: 64 word) \<and> smallTime 1000 \<and> smallTime (stepClock (nowReads Sender_new))
   \<and> postDelayUs (snd firstCallAt1000) = 0
   \<and> mFirstOutputBufferReadyTimeUs (fst firstCallAt1000) = 1000
   \<and> mFirstOutputBufferSentTimeUs (fst firstCallAt1000) = 100
   \<and> smallTime 1500 \<and> smallTime (stepClock (nowReads (fst firstCallAt1000)))
   \<and> stepClock (nowReads (fst firstCallAt1000)) = 200
   \<and> sint (postDelayUs (snd laterCallAt1500)) = 400
   \<and> mFirstOutputBufferReadyTimeUs (fst laterCallAt1500) = 1000
   \<and> mFirstOutputBufferSentTimeUs (fst laterCallAt1500) = 100"
proof -
  have h: "sint (mFirstOutputBufferReadyTimeUs Sender_new) < 0"
    by (simp add: Sender_new_def)
  have nn: "0 \<le> sint (1000 :: 64 word)" by simp
  have s: "smallTime 1000" "smallTime 100" "smallTime 1500" "smallTime 200"
    by (simp_all add: smallTime_def)
  have c: "stepClock (nowReads Sender_new) = 100" by (simp add: Sender_new_def stepClock_def)
  obtain s0 m0 where f: "queuePackets stepClock 1000 [] Sender_new = (s0, m0)"
    by (cases "queuePackets stepClock 1000 [] Sender_new")
  obtain s2 m where l: "queuePackets stepClock 1500 [] s0 = (s2, m)"
    by (cases "queuePackets stepClock 1500 [] s0")
  note T = queuePackets_pacing [where clk = stepClock and s = Sender_new and ?t0.0 = 1000 and ?p0.0 = "[]", OF h,
      unfolded f c prod.case]
  have first: "postDelayUs m0 = 0"
    "s0 = Sender_new\<lparr>mFirstOutputBufferReadyTimeUs := 1000, nowReads := Suc (nowReads Sender_new),
                   mFirstOutputBufferSentTimeUs := 100\<rparr>"
    using T by blast+
  have a: "mFirstOutputBufferReadyTimeUs s0 = 1000" "mFirstOutputBufferSentTimeUs s0 = 100"
    "nowReads s0 = Suc (nowReads Sender_new)"
    by (subst first(2), simp)+
  have k: "stepClock (nowReads s0) = 200" using a(3) by (simp add: stepClock_def)
  have "case queuePackets stepClock 1500 [] s0 of (s2, m) \<Rightarrow>
                 msgPackets m = []
               \<and> s2 = s0\<lparr>nowReads := Suc (nowReads s0)\<rparr>
               \<and> postDelayUs m =
                   (let d = (1500 - 1000) + 100 - stepClock (nowReads s0)
                    in if 0 < sint d then d else 0)
               \<and> (smallTime 1500 \<and> smallTime 1000 \<and> smallTime 100 \<and> smallTime (stepClock (nowReads s0)) \<longrightarrow>
                    sint (postDelayUs m) =
                      max 0 ((sint (1500 :: 64 word) - sint (1000 :: 64 word)) + sint (100 :: 64 word) - sint (stepClock (nowReads s0))))"
    using T [THEN conjunct2, THEN conjunct2, THEN conjunct2, THEN mp, OF nn]
    apply -
    apply (drule spec [of _ s0], drule spec [of _ "1500 :: 64 word"], drule spec [of _ "[] :: byte list"])
    apply simp
    done
  then have d: "sint (postDelayUs m) = 400" "s2 = s0\<lparr>nowReads := Suc (nowReads s0)\<rparr>"
    unfolding l k using s by simp_all
  show ?thesis
    using h s c first(1) a d k
    by (simp add: firstCallAt1000_def laterCallAt1500_def f l)
qed

section \<open>Initialisation when no port can be bound\<close>

lemma init_loop_unbound_aux:
  assumes "init_loop cfg net clientIP clientRtp clientRtcp serverRtp s = Some r"
  shows "net \<noteq> unboundNet"
proof (rule init_loop.raw_induct [where P = "\<lambda>cfg net clientIP clientRtp clientRtcp serverRtp s r. net \<noteq> unboundNet", OF _ assms])
  fix f :: "config \<Rightarrow> ANetworkSession \<Rightarrow> string \<Rightarrow> 32 word \<Rightarrow> 32 word \<Rightarrow> 32 word \<Rightarrow> Sender
              \<Rightarrow> (failure + Sender) option"
    and cfg :: config and net :: ANetworkSession and clientIP :: string
    and clientRtp clientRtcp serverRtp :: "32 word" and s :: Sender and r :: "failure + Sender"
  assume IH: "\<And>cfg net clientIP clientRtp clientRtcp serverRtp s r.
           f cfg net clientIP clientRtp clientRtcp serverRtp s = Some r \<Longrightarrow> net \<noteq> unboundNet"
    and body: "(case (if mTransportMode s = TRANSPORT_UDP
           then createUDPSession net serverRtp clientIP clientRtp
           else createTCPDatagramSession net serverRtp clientIP clientRtp) of
       None \<Rightarrow> f cfg net clientIP clientRtp clientRtcp (serverRtp + 2) s
     | Some rtpSession \<Rightarrow>
         (case (if sint clientRtcp \<ge> 0
                then (if mTransportMode s = TRANSPORT_UDP
                      then createUDPSession net (serverRtp + 1) clientIP clientRtcp
                      else createTCPDatagramSession net (serverRtp + 1) clientIP clientRtcp)
                else Some 0) of
            None \<Rightarrow> f cfg net clientIP clientRtp clientRtcp (serverRtp + 2) s
          | Some rtcpSession \<Rightarrow>
              (if ENABLE_RETRANSMISSION cfg \<and> mTransportMode s = TRANSPORT_UDP
               then (case createUDPSession net (serverRtp + kRetransmissionPortOffset cfg) clientIP
                            (clientRtp + kRetransmissionPortOffset cfg) of
                       None \<Rightarrow> f cfg net clientIP clientRtp clientRtcp (serverRtp + 2) s
                     | Some rtpRetransmissionSession \<Rightarrow>
                         (if \<not> sint clientRtcp \<ge> 0 then Some (Inl CHECK_FAILED)
                          else (case createUDPSession net (serverRtp + 1 + kRetransmissionPortOffset cfg) clientIP
                                       (clientRtp + 1 + kRetransmissionPortOffset cfg) of
                                  None \<Rightarrow> f cfg net clientIP clientRtp clientRtcp (serverRtp + 2) s
                                | Some rtcpRetransmissionSession \<Rightarrow>
                                    Some (Inr (s\<lparr>mRTPRetransmissionSessionID := rtpRetransmissionSession,
                                                 mRTCPRetransmissionSessionID := rtcpRetransmissionSession,
                                                 mRTPPort := serverRtp,
                                                 mRTPSessionID := rtpSession,
                                                 mRTCPSessionID := rtcpSession\<rparr>)))))
               else Some (Inr (s\<lparr>mRTPPort := serverRtp,
                                  mRTPSessionID := rtpSession,
                                  mRTCPSessionID := rtcpSession\<rparr>))))) = Some r"
  show "net \<noteq> unboundNet"
  proof
    assume net: "net = unboundNet"
    from body have "f cfg net clientIP clientRtp clientRtcp (serverRtp + 2) s = Some r"
      by (simp add: net unboundNet_def split: if_splits)
    from IH [OF this] net show False by simp
  qed
qed

lemma init_loop_unbound:
  "init_loop cfg unboundNet clientIP clientRtp clientRtcp serverRtp s = None"
  using init_loop_unbound_aux [of cfg unboundNet clientIP clientRtp clientRtcp serverRtp s]
  by (cases "init_loop cfg unboundNet clientIP clientRtp clientRtcp serverRtp s") auto

text \<open>
  C9. The specification has \<open>init\<close> return the unknown-error status when no candidate
  port pair can be bound. The loop of \<open>init\<close> has no exit but a successful bind, so on a
  network where every bind fails \<open>init\<close> in UDP mode never returns: its value in the
  model is \<open>None\<close>. The test \<open>mRTPPort == 0\<close> after the loop, which would return
  the error, is never reached. In TCP mode \<open>init\<close> binds nothing and returns \<open>OK\<close>.
\<close>

theorem init_never_returns:
  "init cfg unboundNet clientIP clientRtp clientRtcp TRANSPORT_UDP s = None
   \<and> (\<exists>s'. init cfg unboundNet clientIP clientRtp clientRtcp TRANSPORT_TCP s = Some (Inr (OK, s')))"
  by (simp add: init_def init_loop_unbound)

section \<open>The NACK handler, entry by entry\<close>

lemma serveEntries_append:
  "serveEntries (es1 @ es2) s =
     (case serveEntries es1 s of
        (s1, out1) \<Rightarrow> (case serveEntries es2 s1 of (s2, out2) \<Rightarrow> (s2, out1 @ out2)))"
proof (induction es1 arbitrary: s)
  case Nil
  show ?case by (simp split: prod.splits)
next
  case (Cons e es1)
  obtain seqNo blp where e: "e = (seqNo, blp)" by (cases e)
  show ?case
    unfolding e by (simp add: Cons.IH split: prod.splits)
qed

lemma parseTSFB_loop_serve:
  assumes "i + 4 * n \<le> length data" "sz \<le> i + 4 * n" "n = 0 \<or> i + 4 * (n - 1) < sz"
  shows "parseTSFB_loop data sz i s = Inr (serveEntries (entriesAt data i n) s)"
  using assms
proof (induction n arbitrary: i s)
  case 0
  then show ?case by (subst parseTSFB_loop.simps) simp
next
  case (Suc n)
  from Suc.prems have lt: "i < sz" and inb: "\<not> length data < i + 4" by simp_all
  obtain b1 f1 s1 out1 where
    r: "scanHistory (U16_AT (drop i data)) (mHistory s) (U16_AT (drop (i + 2) data)) False s = (b1, f1, s1, out1)"
    by (metis prod_cases4)
  have "n = 0 \<or> i + 4 + 4 * (n - 1) < sz" using Suc.prems(3) by (cases n) simp_all
  with Suc.prems have ih: "parseTSFB_loop data sz (i + 4) s1 = Inr (serveEntries (entriesAt data (i + 4) n) s1)"
    by (intro Suc.IH) simp_all
  show ?case
    apply (subst parseTSFB_loop.simps)
    apply (simp only: lt inb if_True if_False Let_def r prod.case ih sum.case entriesAt.simps serveEntries.simps)
    apply (simp split: prod.splits)
    done
qed

lemma nackEntries_count:
  assumes "sz mod 4 = 0" "sz \<le> length data" "12 \<le> length data"
  shows "12 + 4 * ((sz - 12) div 4) \<le> length data" "sz \<le> 12 + 4 * ((sz - 12) div 4)"
    "(sz - 12) div 4 = 0 \<or> 12 + 4 * ((sz - 12) div 4 - 1) < sz"
  using assms by presburger+

lemma parseTSFB_accepted:
  assumes "(data ! 0) AND 0x1f = 1" "12 \<le> length data" "U32_AT (drop 8 data) = kSourceID cfg"
    and "sz \<le> length data" "sz mod 4 = 0"
  shows "parseTSFB cfg data sz s = Inr (OK, serveEntries (nackEntries data sz) s)"
proof -
  have "parseTSFB_loop data sz 12 s = Inr (serveEntries (nackEntries data sz) s)"
    unfolding nackEntries_def
    using nackEntries_count [OF assms(5,4,2)] by (intro parseTSFB_loop_serve)
  moreover have "data \<noteq> []" using assms(2) by auto
  ultimately show ?thesis
    using assms(1,2,3) by (simp add: parseTSFB_def split: prod.splits)
qed

lemma nackPacket_fields:
  "length (nackPacket cfg seqNo blp) = 16"
  "(nackPacket cfg seqNo blp ! 0) AND 0x1f = 1"
  "U32_AT (drop 8 (nackPacket cfg seqNo blp)) = kSourceID cfg"
  "U16_AT (drop 12 (nackPacket cfg seqNo blp)) = seqNo"
  "U16_AT (drop 14 (nackPacket cfg seqNo blp)) = blp"
  by (simp_all add: nackPacket_def U32_AT_def U16_AT_def be32_of32 be16_of16)

lemma parseTSFB_single:
  "parseTSFB cfg (nackPacket cfg seqNo blp) 16 s =
     (case scanHistory seqNo (mHistory s) blp False s of
        (blp', foundSeqNo, s', out) \<Rightarrow> Inr (OK, s', out))"
proof -
  obtain blp' f s' out where sc: "scanHistory seqNo (mHistory s) blp False s = (blp', f, s', out)"
    by (metis prod_cases4)
  have e: "parseTSFB_loop (nackPacket cfg seqNo blp) 16 16 s' = Inr (s', [])"
    by (subst parseTSFB_loop.simps) simp
  have "parseTSFB_loop (nackPacket cfg seqNo blp) 16 12 s = Inr (s', out)"
    by (subst parseTSFB_loop.simps) (simp add: nackPacket_fields sc e Let_def)
  then show ?thesis
    by (simp add: parseTSFB_def nackPacket_fields sc)
qed

section \<open>The walk of parseRTCP\<close>

lemma headerLengthOf_pos: "4 \<le> headerLengthOf data" "headerLengthOf data mod 4 = 0"
  by (simp_all add: headerLengthOf_def)

lemma strippedSize_le: "strippedSize data sz \<le> sz"
  by (simp add: strippedSize_def)

lemma next_smaller:
  "wellFormedHead data sz \<Longrightarrow> strippedSize data sz - headerLengthOf data < sz"
proof -
  assume "wellFormedHead data sz"
  then have "headerLengthOf data \<le> strippedSize data sz"
    by (simp add: wellFormedHead_def badLength_def)
  with headerLengthOf_pos(1) [of data] strippedSize_le [of data sz] show ?thesis by linarith
qed

lemma parseRTCP_loop_zero: "parseRTCP_loop cfg data 0 s = Inr (OK, s, [])"
  by (subst parseRTCP_loop.simps) simp

lemma parseRTCP_loop_short: "0 < sz \<Longrightarrow> sz < 8 \<Longrightarrow> parseRTCP_loop cfg data sz s = Inr (ERROR_MALFORMED, s, [])"
  by (subst parseRTCP_loop.simps) simp

lemma parseRTCP_loop_version:
  "8 \<le> sz \<Longrightarrow> badVersion data \<Longrightarrow> parseRTCP_loop cfg data sz s = Inr (ERROR_UNSUPPORTED, s, [])"
  by (subst parseRTCP_loop.simps) (simp add: badVersion_def)

lemma parseRTCP_loop_malformed:
  "8 \<le> sz \<Longrightarrow> \<not> badVersion data \<Longrightarrow> badPadding data sz \<or> badLength data sz \<Longrightarrow>
   parseRTCP_loop cfg data sz s = Inr (ERROR_MALFORMED, s, [])"
  by (subst parseRTCP_loop.simps)
     (auto simp: badVersion_def badPadding_def badLength_def strippedSize_def paddingFlag_def Let_def)

lemma parseRTCP_loop_step:
  assumes "wellFormedHead data sz"
  shows "parseRTCP_loop cfg data sz s =
    (case parseRTCP_switch cfg data (headerLengthOf data) s of
       Inl e \<Rightarrow> Inl e
     | Inr (s', out) \<Rightarrow>
         (case parseRTCP_loop cfg (drop (headerLengthOf data) data)
                 (strippedSize data sz - headerLengthOf data) s' of
            Inl e \<Rightarrow> Inl e
          | Inr (err, s'', out') \<Rightarrow> Inr (err, s'', out @ out')))"
proof -
  from assms have a: "0 < sz" "\<not> sz < 8" "\<not> drop_bit 6 (data ! 0) \<noteq> 2"
    "\<not> ((data ! 0) AND 0x20 \<noteq> 0 \<and> unat (data ! (sz - 1)) + 12 > sz)"
    "\<not> strippedSize data sz < headerLengthOf data"
    by (auto simp: wellFormedHead_def badVersion_def badPadding_def badLength_def paddingFlag_def)
  have b: "(if (data ! 0) AND 0x20 \<noteq> 0 then sz - unat (data ! (sz - 1)) else sz) = strippedSize data sz"
    by (simp add: strippedSize_def paddingFlag_def)
  show ?thesis
    by (subst parseRTCP_loop.simps) (simp only: a b if_True if_False Let_def)
qed

lemma parseTSFB_unsupported:
  "data \<noteq> [] \<Longrightarrow> (data ! 0) AND 0x1f \<noteq> 1 \<Longrightarrow> parseTSFB cfg data sz s = Inr (ERROR_UNSUPPORTED, s, [])"
  by (simp add: parseTSFB_def)

lemma parseTSFB_malformed:
  "12 \<le> length data \<Longrightarrow> (data ! 0) AND 0x1f = 1 \<Longrightarrow> U32_AT (drop 8 data) \<noteq> kSourceID cfg \<Longrightarrow>
   parseTSFB cfg data sz s = Inr (ERROR_MALFORMED, s, [])"
  by (auto simp: parseTSFB_def)

lemma remainders_stop: "\<not> wellFormedHead data sz \<Longrightarrow> remainders data sz = [(data, sz)]"
  by (subst remainders.simps) simp

lemma remainders_step:
  "wellFormedHead data sz \<Longrightarrow>
   remainders data sz = (data, sz) #
     remainders (drop (headerLengthOf data) data) (strippedSize data sz - headerLengthOf data)"
  by (subst remainders.simps) simp

lemma remainders_nonempty: "remainders data sz \<noteq> []"
  by (subst remainders.simps) simp

lemma wellFormed_not_final:
  "wellFormedHead data sz \<Longrightarrow>
   \<not> malformedAt (data, sz) \<and> \<not> unsupportedAt (data, sz) \<and> \<not> exhaustedAt (data, sz)
   \<and> \<not> (0 < sz \<and> sz < 8)"
  by (auto simp: wellFormedHead_def)

lemma not_wellFormed_final:
  "\<not> wellFormedHead data sz \<Longrightarrow>
   malformedAt (data, sz) \<or> unsupportedAt (data, sz) \<or> exhaustedAt (data, sz)"
  by (auto simp: wellFormedHead_def)

lemma final_exclusive:
  "\<not> (malformedAt r \<and> unsupportedAt r)" "\<not> (malformedAt r \<and> exhaustedAt r)"
  "\<not> (unsupportedAt r \<and> exhaustedAt r)"
  by (cases r; auto)+

text \<open>Only the last remainder of the walk can be one at which the walk stops.\<close>

lemma remainders_last_all:
  "((\<exists>r\<in>set (remainders data sz). malformedAt r) = malformedAt (last (remainders data sz)))
   \<and> ((\<exists>r\<in>set (remainders data sz). unsupportedAt r) = unsupportedAt (last (remainders data sz)))
   \<and> ((\<exists>r\<in>set (remainders data sz). exhaustedAt r) = exhaustedAt (last (remainders data sz)))
   \<and> \<not> wellFormedHead (fst (last (remainders data sz))) (snd (last (remainders data sz)))"
proof (induction sz arbitrary: data rule: less_induct)
  case (less sz)
  show ?case
  proof (cases "wellFormedHead data sz")
    case False
    then show ?thesis by (simp add: remainders_stop)
  next
    case True
    let ?d = "drop (headerLengthOf data) data" and ?n = "strippedSize data sz - headerLengthOf data"
    note ih = less.IH [OF next_smaller [OF True], of ?d]
    have l: "last (remainders data sz) = last (remainders ?d ?n)"
      using remainders_nonempty [of ?d ?n] by (simp add: remainders_step [OF True])
    have s: "set (remainders data sz) = insert (data, sz) (set (remainders ?d ?n))"
      by (simp add: remainders_step [OF True])
    show ?thesis
      unfolding l s using ih wellFormed_not_final [OF True]
      by (simp del: malformedAt.simps unsupportedAt.simps exhaustedAt.simps)
  qed
qed

lemmas remainders_last = remainders_last_all [THEN conjunct1]
  remainders_last_all [THEN conjunct2, THEN conjunct1]
  remainders_last_all [THEN conjunct2, THEN conjunct2, THEN conjunct1]
  remainders_last_all [THEN conjunct2, THEN conjunct2, THEN conjunct2]

lemma parseRTCP_switch_effect:
  assumes "headerLengthOf data \<le> length data" "data \<noteq> []"
  shows "parseRTCP_switch cfg data (headerLengthOf data) s =
     (if ENABLE_RETRANSMISSION cfg \<and> data ! 1 = 205 \<and> (data ! 0) AND 0x1f = 1 \<and> length data < 12
      then Inl OUT_OF_BOUNDS else Inr (subPacketEffect cfg data s))"
proof (cases "data ! 1 = 205 \<and> ENABLE_RETRANSMISSION cfg")
  case False
  then show ?thesis
    by (auto simp: parseRTCP_switch_def subPacketEffect_def acceptedNack_def)
next
  case on: True
  show ?thesis
  proof (cases "(data ! 0) AND 0x1f = 1")
    case False
    then show ?thesis
      using on parseTSFB_unsupported [OF assms(2) False, of cfg "headerLengthOf data" s]
      by (simp add: parseRTCP_switch_def subPacketEffect_def acceptedNack_def)
  next
    case fmt: True
    show ?thesis
    proof (cases "length data < 12")
      case True
      then have "parseTSFB cfg data (headerLengthOf data) s = Inl OUT_OF_BOUNDS"
        using fmt assms(2) by (simp add: parseTSFB_def)
      then show ?thesis using on fmt True by (simp add: parseRTCP_switch_def)
    next
      case False
      then have l: "12 \<le> length data" by simp
      show ?thesis
      proof (cases "U32_AT (drop 8 data) = kSourceID cfg")
        case True
        have "parseTSFB cfg data (headerLengthOf data) s
              = Inr (OK, serveEntries (nackEntries data (headerLengthOf data)) s)"
          by (rule parseTSFB_accepted [OF fmt l True assms(1) headerLengthOf_pos(2)])
        then show ?thesis
          using on fmt True False
          by (simp add: parseRTCP_switch_def subPacketEffect_def acceptedNack_def split: prod.splits)
      next
        case src: False
        then show ?thesis
          using on fmt False parseTSFB_malformed [OF l fmt src, of "headerLengthOf data" s]
          by (simp add: parseRTCP_switch_def subPacketEffect_def acceptedNack_def)
      qed
    qed
  qed
qed

lemma walkEffects_off:
  "\<not> ENABLE_RETRANSMISSION cfg \<Longrightarrow> walkEffects cfg rs s = (s, [])"
  by (induction rs arbitrary: s) (auto simp: subPacketEffect_def acceptedNack_def)

lemma walkEffects_filter:
  "walkEffects cfg (filter (\<lambda>r. \<not> rejectedFeedback cfg (fst r)) rs) s = walkEffects cfg rs s"
proof (induction rs arbitrary: s)
  case Nil
  show ?case by simp
next
  case (Cons r rs)
  obtain d n where r: "r = (d, n)" by (cases r)
  show ?case
  proof (cases "rejectedFeedback cfg d")
    case True
    then have "\<not> acceptedNack cfg d" by (auto simp: rejectedFeedback_def acceptedNack_def)
    then have "subPacketEffect cfg d s = (s, [])" by (simp add: subPacketEffect_def)
    then show ?thesis unfolding r using True Cons.IH by (simp split: prod.splits)
  next
    case False
    then show ?thesis unfolding r using Cons.IH by (simp split: prod.splits)
  qed
qed

lemma walkEffects_first:
  "\<not> wellFormedHead data sz \<Longrightarrow> walkEffects cfg (butlast (remainders data sz)) s = (s, [])"
  by (simp add: remainders_stop)

lemma parseRTCP_loop_outcome:
  "sz \<le> length data \<Longrightarrow> walkOutcome cfg data sz s (parseRTCP_loop cfg data sz s)"
proof (induction sz arbitrary: data s rule: less_induct)
  case (less sz)
  show ?case
  proof (cases "wellFormedHead data sz")
    case False
    note stop = remainders_stop [OF False]
    have no: "\<not> tsfbOverrunAt (data, sz)" using False by simp
    have "sz = 0 \<or> (0 < sz \<and> sz < 8) \<or> (8 \<le> sz \<and> badVersion data)
        \<or> (8 \<le> sz \<and> \<not> badVersion data \<and> (badPadding data sz \<or> badLength data sz))"
      using False unfolding wellFormedHead_def by (cases "sz = 0"; cases "sz < 8"; auto)
    then consider "sz = 0" | "0 < sz" "sz < 8" | "8 \<le> sz" "badVersion data"
      | "8 \<le> sz" "\<not> badVersion data" "badPadding data sz \<or> badLength data sz"
      by blast
    then show ?thesis
    proof cases
      case 1
      then show ?thesis unfolding walkOutcome_def stop using no by (simp add: parseRTCP_loop_zero)
    next
      case 2
      then show ?thesis unfolding walkOutcome_def stop using no by (simp add: parseRTCP_loop_short)
    next
      case 3
      then show ?thesis unfolding walkOutcome_def stop using no by (simp add: parseRTCP_loop_version)
    next
      case 4
      then show ?thesis
        unfolding walkOutcome_def stop using no parseRTCP_loop_malformed [OF 4, of cfg s] by auto
    qed
  next
    case True
    let ?hl = "headerLengthOf data"
    let ?d = "drop ?hl data" and ?n = "strippedSize data sz - ?hl"
    have hl: "?hl \<le> strippedSize data sz" "8 \<le> sz"
      using True by (simp_all add: wellFormedHead_def badLength_def)
    then have hld: "?hl \<le> length data" "data \<noteq> []"
      using strippedSize_le [of data sz] less.prems by auto
    have nd: "?n \<le> length ?d"
      using strippedSize_le [of data sz] less.prems by simp
    note ih = less.IH [OF next_smaller [OF True] nd]
    have ne: "remainders ?d ?n \<noteq> []" by (rule remainders_nonempty)
    have l: "last (remainders data sz) = last (remainders ?d ?n)"
      using ne by (simp add: remainders_step [OF True])
    have bl: "butlast (remainders data sz) = (data, sz) # butlast (remainders ?d ?n)"
      using ne by (simp add: remainders_step [OF True])
    have st: "set (remainders data sz) = insert (data, sz) (set (remainders ?d ?n))"
      by (simp add: remainders_step [OF True])
    note sw = parseRTCP_switch_effect [OF hld, of cfg s]
    show ?thesis
    proof (cases "ENABLE_RETRANSMISSION cfg \<and> data ! 1 = 205 \<and> (data ! 0) AND 0x1f = 1 \<and> length data < 12")
      case over: True
      then have eq: "parseRTCP_loop cfg data sz s = Inl OUT_OF_BOUNDS"
        using sw by (simp add: parseRTCP_loop_step [OF True])
      have "tsfbOverrunAt (data, sz)" using over True by simp
      then show ?thesis
        unfolding eq using over by (simp add: walkOutcome_def st)
    next
      case inb: False
      obtain s1 out1 where e1: "subPacketEffect cfg data s = (s1, out1)"
        by (cases "subPacketEffect cfg data s")
      have sw1: "parseRTCP_switch cfg data ?hl s = Inr (s1, out1)"
        using sw inb e1 by simp
      have no: "\<not> (ENABLE_RETRANSMISSION cfg \<and> tsfbOverrunAt (data, sz))" using inb by auto
      have eq: "parseRTCP_loop cfg data sz s =
         (case parseRTCP_loop cfg ?d ?n s1 of Inl e \<Rightarrow> Inl e
          | Inr (err, s'', out') \<Rightarrow> Inr (err, s'', out1 @ out'))"
        by (simp add: parseRTCP_loop_step [OF True] sw1)
      show ?thesis
      proof (cases "parseRTCP_loop cfg ?d ?n s1")
        case (Inl e)
        with ih [of s1] show ?thesis
          unfolding eq by (simp add: walkOutcome_def st)
      next
        case (Inr r)
        obtain err s2 out2 where r: "r = (err, s2, out2)" by (cases r)
        from ih [of s1] Inr r have
          v: "err = verdict (last (remainders ?d ?n))"
          and w: "walkEffects cfg (butlast (remainders ?d ?n)) s1 = (s2, out2)"
          and o: "\<not> (ENABLE_RETRANSMISSION cfg \<and> (\<exists>r\<in>set (remainders ?d ?n). tsfbOverrunAt r))"
          by (simp_all add: walkOutcome_def)
        have we: "walkEffects cfg (butlast (remainders data sz)) s = (s2, out1 @ out2)"
          unfolding bl by (simp add: e1 w)
        show ?thesis
          unfolding eq Inr r walkOutcome_def
          apply (simp only: sum.case prod.case l we st)
          using v o no by auto
      qed
    qed
  qed
qed

text \<open>
  C4, as amended. With the retransmission feature, a generic NACK sub-packet whose buffer
  ends before byte 12 makes \<open>parseTSFB\<close> read the source ID past the end of the buffer:
  there, and on no other input, no status is returned. On every other buffer \<open>parseRTCP\<close>
  returns the malformed status exactly when its walk reaches a non-empty remainder shorter
  than 8 bytes, or a version-2 sub-packet whose padding flag is set with a padding length
  plus 12 above the remaining size, or whose declared length (4 times the length field
  plus 4) is above the remaining size once the padding is stripped. It returns the
  unsupported status exactly when the walk reaches a sub-packet of another version, and
  \<open>OK\<close> exactly when the walk consumes every sub-packet and exhausts the buffer.
  Whatever the status, the sender and the packets sent are those of the accepted NACK
  sub-packets that the walk passed before it stopped: the sender is unchanged and nothing
  is sent without the retransmission feature, and when the walk stops at the first
  remainder.
\<close>

theorem parseRTCP_verdict:
  "case parseRTCP cfg buffer s of
     Inl e \<Rightarrow> e = OUT_OF_BOUNDS \<and> ENABLE_RETRANSMISSION cfg
               \<and> (\<exists>r\<in>set (remainders buffer (length buffer)). tsfbOverrunAt r)
   | Inr (st, s', out) \<Rightarrow>
       \<not> (ENABLE_RETRANSMISSION cfg \<and> (\<exists>r\<in>set (remainders buffer (length buffer)). tsfbOverrunAt r))
     \<and> (st = ERROR_MALFORMED \<longleftrightarrow> (\<exists>r\<in>set (remainders buffer (length buffer)). malformedAt r))
     \<and> (st = ERROR_UNSUPPORTED \<longleftrightarrow> (\<exists>r\<in>set (remainders buffer (length buffer)). unsupportedAt r))
     \<and> (st = OK \<longleftrightarrow> (\<exists>r\<in>set (remainders buffer (length buffer)). exhaustedAt r))
     \<and> (s', out) = walkEffects cfg (butlast (remainders buffer (length buffer))) s
     \<and> (\<not> ENABLE_RETRANSMISSION cfg \<longrightarrow> s' = s \<and> out = [])
     \<and> (\<not> wellFormedHead buffer (length buffer) \<longrightarrow> s' = s \<and> out = [])"
proof -
  let ?W = "remainders buffer (length buffer)"
  have o: "walkOutcome cfg buffer (length buffer) s (parseRTCP cfg buffer s)"
    unfolding parseRTCP_def by (rule parseRTCP_loop_outcome) simp
  have fin: "malformedAt (last ?W) \<or> unsupportedAt (last ?W) \<or> exhaustedAt (last ?W)"
    using not_wellFormed_final [OF remainders_last(4) [of buffer "length buffer"]] by simp
  show ?thesis
  proof (cases "parseRTCP cfg buffer s")
    case (Inl e)
    with o show ?thesis by (simp add: walkOutcome_def)
  next
    case (Inr r)
    obtain st s' out where r: "r = (st, s', out)" by (cases r)
    from o Inr r have v: "st = verdict (last ?W)"
      and w: "(s', out) = walkEffects cfg (butlast ?W) s"
      and n: "\<not> (ENABLE_RETRANSMISSION cfg \<and> (\<exists>r\<in>set ?W. tsfbOverrunAt r))"
      by (simp_all add: walkOutcome_def)
    have m: "(st = ERROR_MALFORMED) = malformedAt (last ?W)"
      using v fin final_exclusive [of "last ?W"] by auto
    have u: "(st = ERROR_UNSUPPORTED) = unsupportedAt (last ?W)"
      using v fin final_exclusive [of "last ?W"] by auto
    have k: "(st = OK) = exhaustedAt (last ?W)"
      using v fin final_exclusive [of "last ?W"] by auto
    have off: "s' = s \<and> out = []" if "\<not> ENABLE_RETRANSMISSION cfg"
      using w walkEffects_off [OF that, of "butlast ?W" s] by simp
    have first: "s' = s \<and> out = []" if "\<not> wellFormedHead buffer (length buffer)"
      using w walkEffects_first [OF that, of cfg s] by simp
    show ?thesis
      unfolding Inr r
      apply (simp only: sum.case prod.case remainders_last(1,2,3))
      using m u k w n off first by blast
  qed
qed

lemma sideEffect_eval:
  "retransmissionSummary (parseRTCP exampleConfig (nackForZero @ truncatedThree) oneFlushed)
     = Some (ERROR_MALFORMED, 1, [(0, 0)])"
  by code_simp

lemma oneFlushed_counter: "mRTPRetransmissionSeqNo oneFlushed = 0"
  by (simp add: oneFlushed_def appendTSData_def appendTSData_flush_def GetNowUs_def Sender_new_def
      Let_def split: sum.splits prod.splits)

text \<open>
  C4 as stated fails on an 8-byte sub-packet with the padding flag set and a padding
  length of 0: the remainder is not shorter than 8 bytes, the padding does not exceed the
  packet size and the declared length does not exceed the buffer, yet the result is the
  malformed status, because the source compares the padding length plus 12 with the
  size. An 8-byte sub-packet of version 1 meets none of the three conditions either, and
  the walk does not consume it: the result is the unsupported status. A NACK for a packet
  of the history followed by a 3-byte fragment gives the malformed status after one
  retransmission has been sent. With the retransmission feature, an 8-byte generic NACK
  makes the handler read past the end of the buffer.
\<close>

theorem parseRTCP_padding_counterexample:
  "parseRTCP plainConfig paddedEight Sender_new = Inr (ERROR_MALFORMED, Sender_new, [])
   \<and> \<not> (0 < length paddedEight \<and> length paddedEight < 8)
   \<and> (paddedEight ! 0) AND 0x20 \<noteq> 0
   \<and> \<not> unat (last paddedEight) > length paddedEight
   \<and> \<not> headerLengthOf paddedEight > length paddedEight
   \<and> parseRTCP plainConfig versionOnePacket Sender_new = Inr (ERROR_UNSUPPORTED, Sender_new, [])
   \<and> \<not> (0 < length versionOnePacket \<and> length versionOnePacket < 8)
   \<and> \<not> (versionOnePacket ! 0) AND 0x20 \<noteq> 0
   \<and> \<not> headerLengthOf versionOnePacket > length versionOnePacket
   \<and> retransmissionSummary (parseRTCP exampleConfig (nackForZero @ truncatedThree) oneFlushed)
       = Some (ERROR_MALFORMED, 1, [(0, 0)])
   \<and> mRTPRetransmissionSeqNo oneFlushed = 0
   \<and> parseRTCP exampleConfig shortNack Sender_new = Inl OUT_OF_BOUNDS"
proof -
  have l: "length paddedEight = 8" by (simp add: paddedEight_def)
  have "badPadding paddedEight 8" "\<not> badVersion paddedEight"
    by (simp_all add: badPadding_def badVersion_def paddingFlag_def paddedEight_def)
  then have "parseRTCP_loop plainConfig paddedEight 8 Sender_new = Inr (ERROR_MALFORMED, Sender_new, [])"
    by (intro parseRTCP_loop_malformed) simp_all
  then have r: "parseRTCP plainConfig paddedEight Sender_new = Inr (ERROR_MALFORMED, Sender_new, [])"
    by (simp only: parseRTCP_def l)
  have p: "(paddedEight ! 0) AND 0x20 \<noteq> 0" "\<not> unat (last paddedEight) > length paddedEight"
    "\<not> headerLengthOf paddedEight > length paddedEight"
    by (simp_all add: paddedEight_def headerLengthOf_def)
  have lv: "length versionOnePacket = 8" by (simp add: versionOnePacket_def)
  have "badVersion versionOnePacket" by (simp add: badVersion_def versionOnePacket_def)
  then have "parseRTCP_loop plainConfig versionOnePacket 8 Sender_new = Inr (ERROR_UNSUPPORTED, Sender_new, [])"
    by (intro parseRTCP_loop_version) simp_all
  then have v: "parseRTCP plainConfig versionOnePacket Sender_new = Inr (ERROR_UNSUPPORTED, Sender_new, [])"
    by (simp only: parseRTCP_def lv)
  have pv: "\<not> (versionOnePacket ! 0) AND 0x20 \<noteq> 0" "\<not> headerLengthOf versionOnePacket > length versionOnePacket"
    by (simp_all add: versionOnePacket_def headerLengthOf_def)
  have ls: "length shortNack = 8" by (simp add: shortNack_def)
  have ws: "wellFormedHead shortNack 8"
    by (simp add: wellFormedHead_def badVersion_def badPadding_def badLength_def strippedSize_def
        paddingFlag_def headerLengthOf_def shortNack_def)
  have hs: "headerLengthOf shortNack = 8" by (simp add: headerLengthOf_def shortNack_def)
  have "parseRTCP_switch exampleConfig shortNack 8 Sender_new = Inl OUT_OF_BOUNDS"
    by (simp add: parseRTCP_switch_def parseTSFB_def shortNack_def exampleConfig_def)
  then have "parseRTCP_loop exampleConfig shortNack 8 Sender_new = Inl OUT_OF_BOUNDS"
    unfolding parseRTCP_loop_step [OF ws] hs by simp
  then have s: "parseRTCP exampleConfig shortNack Sender_new = Inl OUT_OF_BOUNDS"
    by (simp only: parseRTCP_def ls)
  show ?thesis
    using r l p v lv pv s sideEffect_eval oneFlushed_counter by simp
qed

theorem parseRTCP_verdict_witness:
  "\<not> ENABLE_RETRANSMISSION plainConfig
   \<and> \<not> wellFormedHead truncatedThree (length truncatedThree)
   \<and> parseRTCP plainConfig truncatedThree Sender_new = Inr (ERROR_MALFORMED, Sender_new, [])"
proof -
  have w: "\<not> wellFormedHead truncatedThree (length truncatedThree)"
    by (simp add: wellFormedHead_def truncatedThree_def)
  have c: "\<not> ENABLE_RETRANSMISSION plainConfig" by (simp add: plainConfig_def)
  have m: "\<exists>r\<in>set (remainders truncatedThree (length truncatedThree)). malformedAt r"
    unfolding remainders_stop [OF w] by (simp add: truncatedThree_def)
  show ?thesis
    using parseRTCP_verdict [of plainConfig truncatedThree Sender_new] w c m
    by (auto split: sum.splits simp: plainConfig_def)
qed

section \<open>Unsupported versions and rejected feedback\<close>

lemma parseRTCP_loop_skip:
  assumes "wellFormedHead data sz"
    and "parseRTCP_switch cfg data (headerLengthOf data) s = Inr (s, [])"
  shows "parseRTCP_loop cfg data sz s =
         parseRTCP_loop cfg (drop (headerLengthOf data) data) (strippedSize data sz - headerLengthOf data) s"
  unfolding parseRTCP_loop_step [OF assms(1)] assms(2)
  by (auto split: sum.splits)

lemma plainSubPacket_head:
  assumes "plainSubPacket pkt"
  shows "wellFormedHead (pkt @ rest) (length (pkt @ rest))"
    and "headerLengthOf (pkt @ rest) = length pkt"
    and "strippedSize (pkt @ rest) (length (pkt @ rest)) = length pkt + length rest"
    and "(pkt @ rest) ! 0 = pkt ! 0" and "(pkt @ rest) ! 1 = pkt ! 1"
proof -
  from assms have l: "8 \<le> length pkt" by (simp add: plainSubPacket_def)
  then have "0 < length pkt" "1 < length pkt" "2 < length pkt" "3 < length pkt" by linarith+
  then have n: "(pkt @ rest) ! 0 = pkt ! 0" "(pkt @ rest) ! 1 = pkt ! 1"
    "(pkt @ rest) ! 2 = pkt ! 2" "(pkt @ rest) ! 3 = pkt ! 3"
    by (simp_all only: nth_append if_True)
  then show h: "headerLengthOf (pkt @ rest) = length pkt"
    using assms by (simp add: headerLengthOf_def plainSubPacket_def)
  show s: "strippedSize (pkt @ rest) (length (pkt @ rest)) = length pkt + length rest"
    using assms n by (simp add: strippedSize_def paddingFlag_def plainSubPacket_def)
  show "wellFormedHead (pkt @ rest) (length (pkt @ rest))"
    unfolding wellFormedHead_def badLength_def s h
    using assms n l by (simp add: badVersion_def badPadding_def paddingFlag_def plainSubPacket_def)
  show "(pkt @ rest) ! 0 = pkt ! 0" "(pkt @ rest) ! 1 = pkt ! 1" by (rule n)+
qed

lemma parseRTCP_skip_front:
  assumes "plainSubPacket pkt"
    and "parseRTCP_switch cfg (pkt @ rest) (length pkt) s = Inr (s, [])"
  shows "parseRTCP cfg (pkt @ rest) s = parseRTCP cfg rest s"
proof -
  note h = plainSubPacket_head [OF assms(1), of rest]
  have "parseRTCP_loop cfg (pkt @ rest) (length (pkt @ rest)) s =
        parseRTCP_loop cfg (drop (length pkt) (pkt @ rest)) (length pkt + length rest - length pkt) s"
    using parseRTCP_loop_skip [OF h(1), of cfg s] assms(2) unfolding h(2) h(3) by simp
  then show ?thesis by (simp add: parseRTCP_def)
qed

lemma switch_rejected:
  assumes "data \<noteq> []"
    and "(data ! 0) AND 0x1f \<noteq> 1 \<or> (12 \<le> length data \<and> U32_AT (drop 8 data) \<noteq> kSourceID cfg)"
  shows "parseRTCP_switch cfg data hl s = Inr (s, [])"
    and "\<exists>err. parseTSFB cfg data hl s = Inr (err, s, []) \<and> err \<noteq> OK"
proof -
  show e: "\<exists>err. parseTSFB cfg data hl s = Inr (err, s, []) \<and> err \<noteq> OK"
  proof (cases "(data ! 0) AND 0x1f \<noteq> 1")
    case True
    then show ?thesis using parseTSFB_unsupported [OF assms(1), of cfg hl s] by simp
  next
    case False
    with assms(2) show ?thesis using parseTSFB_malformed [of data cfg hl s] by simp
  qed
  then show "parseRTCP_switch cfg data hl s = Inr (s, [])"
    by (auto simp: parseRTCP_switch_def)
qed

text \<open>
  C5, as amended. A sub-packet whose version is not 2 makes \<open>parseRTCP\<close> stop and return
  the unsupported status at once, with the sender unchanged and the rest of the buffer
  unread. A feedback sub-packet (type 205) whose format subtype is not 1 makes the NACK
  handler return the unsupported status without any effect; \<open>parseRTCP\<close> drops that
  status and goes on with the remaining sub-packets.
\<close>

theorem unsupported_version_stops_subtype_skipped:
  "(8 \<le> sz \<and> drop_bit 6 (data ! 0) \<noteq> 2 \<longrightarrow>
      parseRTCP_loop cfg data sz s = Inr (ERROR_UNSUPPORTED, s, []))
   \<and> (8 \<le> length buffer \<and> drop_bit 6 (buffer ! 0) \<noteq> 2 \<longrightarrow>
      parseRTCP cfg buffer s = Inr (ERROR_UNSUPPORTED, s, []))
   \<and> (wellFormedHead fb n \<and> n \<le> length fb \<and> fb ! 1 = 205 \<and> (fb ! 0) AND 0x1f \<noteq> 1 \<longrightarrow>
      parseTSFB cfg fb (headerLengthOf fb) s = Inr (ERROR_UNSUPPORTED, s, [])
      \<and> parseRTCP_loop cfg fb n s =
          parseRTCP_loop cfg (drop (headerLengthOf fb) fb)
            (strippedSize fb n - headerLengthOf fb) s)
   \<and> (plainSubPacket pkt \<and> pkt ! 1 = 205 \<and> (pkt ! 0) AND 0x1f \<noteq> 1 \<longrightarrow>
      parseRTCP cfg (pkt @ rest) s = parseRTCP cfg rest s)"
proof (intro conjI impI)
  assume "8 \<le> sz \<and> drop_bit 6 (data ! 0) \<noteq> 2"
  then show "parseRTCP_loop cfg data sz s = Inr (ERROR_UNSUPPORTED, s, [])"
    by (simp add: parseRTCP_loop_version badVersion_def)
next
  assume "8 \<le> length buffer \<and> drop_bit 6 (buffer ! 0) \<noteq> 2"
  then show "parseRTCP cfg buffer s = Inr (ERROR_UNSUPPORTED, s, [])"
    by (simp add: parseRTCP_def parseRTCP_loop_version badVersion_def)
next
  assume a: "wellFormedHead fb n \<and> n \<le> length fb \<and> fb ! 1 = 205 \<and> (fb ! 0) AND 0x1f \<noteq> 1"
  then have ne: "fb \<noteq> []" by (auto simp: wellFormedHead_def)
  from a show "parseTSFB cfg fb (headerLengthOf fb) s = Inr (ERROR_UNSUPPORTED, s, [])"
    using parseTSFB_unsupported [OF ne] by simp
  from a show "parseRTCP_loop cfg fb n s =
          parseRTCP_loop cfg (drop (headerLengthOf fb) fb)
            (strippedSize fb n - headerLengthOf fb) s"
    using parseRTCP_loop_skip switch_rejected(1) [OF ne] by simp
next
  assume a: "plainSubPacket pkt \<and> pkt ! 1 = 205 \<and> (pkt ! 0) AND 0x1f \<noteq> 1"
  then have p: "plainSubPacket pkt" by simp
  then have ne: "pkt @ rest \<noteq> []" by (auto simp: plainSubPacket_def)
  have "((pkt @ rest) ! 0) AND 0x1f \<noteq> 1" using a plainSubPacket_head(4) [OF p, of rest] by simp
  then have "parseRTCP_switch cfg (pkt @ rest) (length pkt) s = Inr (s, [])"
    using switch_rejected(1) [OF ne] by simp
  then show "parseRTCP cfg (pkt @ rest) s = parseRTCP cfg rest s"
    by (rule parseRTCP_skip_front [OF p])
qed

lemma parseRTCP_single_nack:
  assumes "ENABLE_RETRANSMISSION cfg"
  shows "parseRTCP cfg (nackPacket cfg seqNo blp) s =
     (case scanHistory seqNo (mHistory s) blp False s of
        (blp', foundSeqNo, s', out) \<Rightarrow> Inr (OK, s', out))"
proof -
  let ?p = "nackPacket cfg seqNo blp"
  have l: "length ?p = 16" by (rule nackPacket_fields)
  have h: "headerLengthOf ?p = 16" by (simp add: headerLengthOf_def nackPacket_def)
  have st: "strippedSize ?p 16 = 16" by (simp add: strippedSize_def paddingFlag_def nackPacket_def)
  have w: "wellFormedHead ?p 16"
    unfolding wellFormedHead_def badLength_def st h
    by (simp add: badVersion_def badPadding_def paddingFlag_def nackPacket_def)
  have t: "?p ! 1 = 205" by (simp add: nackPacket_def)
  obtain b f s' out where sc: "scanHistory seqNo (mHistory s) blp False s = (b, f, s', out)"
    by (metis prod_cases4)
  have sw: "parseRTCP_switch cfg ?p 16 s = Inr (s', out)"
    using assms t by (simp add: parseRTCP_switch_def parseTSFB_single sc)
  show ?thesis
    unfolding parseRTCP_def l parseRTCP_loop_step [OF w] h st sw sc
    by (simp add: parseRTCP_loop_zero)
qed

text \<open>
  C10. A feedback sub-packet (type 205) that the NACK handler rejects, because its format
  subtype is not 1 or because its source ID is not the sender's, sends nothing and leaves
  the sender unchanged; \<open>parseRTCP\<close> drops the handler's error status and continues.
  On every buffer on which the handler stays within the buffer, the result of
  \<open>parseRTCP\<close> is the status of the remainder at which its walk stops, which no result
  of the handler enters, together with the effects of all the sub-packets that the walk
  passes other than the rejected ones, in order: the entries of every accepted NACK are
  served, before and after a rejected sub-packet alike. So the result for a rejected
  sub-packet followed by the rest of a buffer is the result for the rest alone, and a
  one-entry NACK that follows a rejected sub-packet is answered by the scan of the
  history for its entry.
\<close>

theorem rejected_feedback_is_skipped:
  "(\<not> (ENABLE_RETRANSMISSION cfg \<and> (\<exists>r\<in>set (remainders buffer (length buffer)). tsfbOverrunAt r)) \<longrightarrow>
      parseRTCP cfg buffer s =
        Inr (verdict (last (remainders buffer (length buffer))),
             walkEffects cfg (filter (\<lambda>r. \<not> rejectedFeedback cfg (fst r))
                                (butlast (remainders buffer (length buffer)))) s))
   \<and> (wellFormedHead data sz \<and> sz \<le> length data \<and> data ! 1 = 205
      \<and> ((data ! 0) AND 0x1f \<noteq> 1 \<or> (12 \<le> length data \<and> U32_AT (drop 8 data) \<noteq> kSourceID cfg)) \<longrightarrow>
      (\<exists>err. parseTSFB cfg data (headerLengthOf data) s = Inr (err, s, []) \<and> err \<noteq> OK)
      \<and> parseRTCP_switch cfg data (headerLengthOf data) s = Inr (s, [])
      \<and> parseRTCP_loop cfg data sz s =
          parseRTCP_loop cfg (drop (headerLengthOf data) data)
            (strippedSize data sz - headerLengthOf data) s)
   \<and> (plainSubPacket pkt \<and> pkt ! 1 = 205
      \<and> ((pkt ! 0) AND 0x1f \<noteq> 1 \<or> (12 \<le> length pkt \<and> U32_AT (drop 8 pkt) \<noteq> kSourceID cfg)) \<longrightarrow>
      (\<exists>err. parseTSFB cfg (pkt @ rest) (length pkt) s = Inr (err, s, []) \<and> err \<noteq> OK)
      \<and> parseRTCP cfg (pkt @ rest) s = parseRTCP cfg rest s
      \<and> (ENABLE_RETRANSMISSION cfg \<longrightarrow>
           parseRTCP cfg (pkt @ nackPacket cfg seqNo blp) s =
             (case scanHistory seqNo (mHistory s) blp False s of
                (blp', foundSeqNo, s', out) \<Rightarrow> Inr (OK, s', out))))"
proof (intro conjI impI)
  let ?W = "remainders buffer (length buffer)"
  assume n: "\<not> (ENABLE_RETRANSMISSION cfg \<and> (\<exists>r\<in>set ?W. tsfbOverrunAt r))"
  have o: "walkOutcome cfg buffer (length buffer) s (parseRTCP cfg buffer s)"
    unfolding parseRTCP_def by (rule parseRTCP_loop_outcome) simp
  show "parseRTCP cfg buffer s =
        Inr (verdict (last ?W), walkEffects cfg (filter (\<lambda>r. \<not> rejectedFeedback cfg (fst r)) (butlast ?W)) s)"
  proof (cases "parseRTCP cfg buffer s")
    case (Inl e)
    with o n show ?thesis by (simp add: walkOutcome_def)
  next
    case (Inr r)
    obtain st s' out where r: "r = (st, s', out)" by (cases r)
    from o Inr r have "st = verdict (last ?W)" "(s', out) = walkEffects cfg (butlast ?W) s"
      by (simp_all add: walkOutcome_def)
    then show ?thesis unfolding Inr r walkEffects_filter by simp
  qed
next
  assume a: "wellFormedHead data sz \<and> sz \<le> length data \<and> data ! 1 = 205
      \<and> ((data ! 0) AND 0x1f \<noteq> 1 \<or> (12 \<le> length data \<and> U32_AT (drop 8 data) \<noteq> kSourceID cfg))"
  then have ne: "data \<noteq> []" by (auto simp: wellFormedHead_def)
  from a have rej: "(data ! 0) AND 0x1f \<noteq> 1 \<or> (12 \<le> length data \<and> U32_AT (drop 8 data) \<noteq> kSourceID cfg)"
    by simp
  show "\<exists>err. parseTSFB cfg data (headerLengthOf data) s = Inr (err, s, []) \<and> err \<noteq> OK"
    by (rule switch_rejected(2) [OF ne rej])
  show sw: "parseRTCP_switch cfg data (headerLengthOf data) s = Inr (s, [])"
    by (rule switch_rejected(1) [OF ne rej])
  from a have "wellFormedHead data sz" by simp
  then show "parseRTCP_loop cfg data sz s =
          parseRTCP_loop cfg (drop (headerLengthOf data) data)
            (strippedSize data sz - headerLengthOf data) s"
    using sw by (rule parseRTCP_loop_skip)
next
  assume a: "plainSubPacket pkt \<and> pkt ! 1 = 205
      \<and> ((pkt ! 0) AND 0x1f \<noteq> 1 \<or> (12 \<le> length pkt \<and> U32_AT (drop 8 pkt) \<noteq> kSourceID cfg))"
  then have p: "plainSubPacket pkt" by simp
  then have ne: "pkt @ rest \<noteq> []" by (auto simp: plainSubPacket_def)
  have u: "U32_AT (drop 8 (pkt @ rest)) = U32_AT (drop 8 pkt)" if "12 \<le> length pkt"
  proof -
    from that have d: "drop 8 (pkt @ rest) = drop 8 pkt @ rest" by simp
    from that have "0 < length (drop 8 pkt)" "1 < length (drop 8 pkt)" "2 < length (drop 8 pkt)"
      "3 < length (drop 8 pkt)" unfolding length_drop by linarith+
    then show ?thesis unfolding d U32_AT_def by (simp only: nth_append if_True)
  qed
  have rej: "((pkt @ rest) ! 0) AND 0x1f \<noteq> 1
       \<or> (12 \<le> length (pkt @ rest) \<and> U32_AT (drop 8 (pkt @ rest)) \<noteq> kSourceID cfg)"
    using a plainSubPacket_head(4) [OF p, of rest] u by auto
  show "\<exists>err. parseTSFB cfg (pkt @ rest) (length pkt) s = Inr (err, s, []) \<and> err \<noteq> OK"
    by (rule switch_rejected(2) [OF ne rej])
  have "parseRTCP_switch cfg (pkt @ rest) (length pkt) s = Inr (s, [])"
    by (rule switch_rejected(1) [OF ne rej])
  then show "parseRTCP cfg (pkt @ rest) s = parseRTCP cfg rest s"
    by (rule parseRTCP_skip_front [OF p])
next
  assume a: "plainSubPacket pkt \<and> pkt ! 1 = 205
      \<and> ((pkt ! 0) AND 0x1f \<noteq> 1 \<or> (12 \<le> length pkt \<and> U32_AT (drop 8 pkt) \<noteq> kSourceID cfg))"
    and en: "ENABLE_RETRANSMISSION cfg"
  let ?rest = "nackPacket cfg seqNo blp"
  from a have p: "plainSubPacket pkt" by simp
  then have ne: "pkt @ ?rest \<noteq> []" by (auto simp: plainSubPacket_def)
  have u: "U32_AT (drop 8 (pkt @ ?rest)) = U32_AT (drop 8 pkt)" if "12 \<le> length pkt"
  proof -
    from that have d: "drop 8 (pkt @ ?rest) = drop 8 pkt @ ?rest" by simp
    from that have "0 < length (drop 8 pkt)" "1 < length (drop 8 pkt)" "2 < length (drop 8 pkt)"
      "3 < length (drop 8 pkt)" unfolding length_drop by linarith+
    then show ?thesis unfolding d U32_AT_def by (simp only: nth_append if_True)
  qed
  have rej: "((pkt @ ?rest) ! 0) AND 0x1f \<noteq> 1
       \<or> (12 \<le> length (pkt @ ?rest) \<and> U32_AT (drop 8 (pkt @ ?rest)) \<noteq> kSourceID cfg)"
    using a plainSubPacket_head(4) [OF p, of ?rest] u by auto
  have "parseRTCP_switch cfg (pkt @ ?rest) (length pkt) s = Inr (s, [])"
    by (rule switch_rejected(1) [OF ne rej])
  then have "parseRTCP cfg (pkt @ ?rest) s = parseRTCP cfg ?rest s"
    by (rule parseRTCP_skip_front [OF p])
  then show "parseRTCP cfg (pkt @ ?rest) s =
             (case scanHistory seqNo (mHistory s) blp False s of
                (blp', foundSeqNo, s', out) \<Rightarrow> Inr (OK, s', out))"
    by (simp only: parseRTCP_single_nack [OF en])
qed

lemma example_packets:
  "plainSubPacket subtypeTwoPacket" "plainSubPacket foreignSourcePacket" "plainSubPacket nackForZero"
  "wellFormedHead subtypeTwoPacket 16" "wellFormedHead foreignSourcePacket 16"
  "length subtypeTwoPacket = 16" "length foreignSourcePacket = 16" "length versionOnePacket = 8"
  "subtypeTwoPacket ! 1 = 205" "(subtypeTwoPacket ! 0) AND 0x1f \<noteq> 1"
  "foreignSourcePacket ! 1 = 205" "U32_AT (drop 8 foreignSourcePacket) \<noteq> kSourceID exampleConfig"
  "drop_bit 6 (versionOnePacket ! 0) \<noteq> 2"
  by (simp_all add: plainSubPacket_def wellFormedHead_def badVersion_def badPadding_def badLength_def
      strippedSize_def paddingFlag_def headerLengthOf_def subtypeTwoPacket_def foreignSourcePacket_def
      nackForZero_def versionOnePacket_def U32_AT_def exampleConfig_def)

lemma nackForZero_eval:
  "(case parseRTCP exampleConfig nackForZero oneFlushed of
      Inl e \<Rightarrow> False
    | Inr (st, s', out) \<Rightarrow> st = OK \<and> length out = 1)"
  by code_simp

text \<open>
  C5 as stated fails for the version: a generic NACK for a packet of the history is
  answered with one retransmission when it is alone in the buffer, and is not processed
  at all when a version-1 sub-packet precedes it.
\<close>

theorem unsupported_version_counterexample:
  "parseRTCP exampleConfig (versionOnePacket @ nackForZero) oneFlushed
     = Inr (ERROR_UNSUPPORTED, oneFlushed, [])
   \<and> (case parseRTCP exampleConfig nackForZero oneFlushed of
         Inl e \<Rightarrow> False
       | Inr (st, s', out) \<Rightarrow> st = OK \<and> length out = 1)"
proof -
  have "badVersion (versionOnePacket @ nackForZero)" "8 \<le> length (versionOnePacket @ nackForZero)"
    by (simp_all add: badVersion_def versionOnePacket_def)
  then have "parseRTCP exampleConfig (versionOnePacket @ nackForZero) oneFlushed
     = Inr (ERROR_UNSUPPORTED, oneFlushed, [])"
    unfolding parseRTCP_def by (intro parseRTCP_loop_version)
  with nackForZero_eval show ?thesis by blast
qed

theorem unsupported_version_stops_subtype_skipped_witness:
  "8 \<le> length versionOnePacket \<and> drop_bit 6 (versionOnePacket ! 0) \<noteq> 2
   \<and> parseRTCP_loop exampleConfig versionOnePacket 8 Sender_new = Inr (ERROR_UNSUPPORTED, Sender_new, [])
   \<and> parseRTCP exampleConfig versionOnePacket Sender_new = Inr (ERROR_UNSUPPORTED, Sender_new, [])
   \<and> wellFormedHead subtypeTwoPacket 16 \<and> 16 \<le> length subtypeTwoPacket
   \<and> plainSubPacket subtypeTwoPacket \<and> subtypeTwoPacket ! 1 = 205
   \<and> (subtypeTwoPacket ! 0) AND 0x1f \<noteq> 1
   \<and> parseTSFB exampleConfig subtypeTwoPacket (headerLengthOf subtypeTwoPacket) Sender_new
        = Inr (ERROR_UNSUPPORTED, Sender_new, [])
   \<and> parseRTCP exampleConfig (subtypeTwoPacket @ versionOnePacket) Sender_new
        = Inr (ERROR_UNSUPPORTED, Sender_new, [])"
  using unsupported_version_stops_subtype_skipped [where sz = 8 and data = versionOnePacket
      and buffer = versionOnePacket and fb = subtypeTwoPacket and n = 16 and pkt = subtypeTwoPacket
      and rest = versionOnePacket and cfg = exampleConfig and s = Sender_new]
    example_packets
  by simp

lemma skipped_walk_eval:
  "\<not> (\<exists>r\<in>set (remainders (foreignSourcePacket @ nackForZero) (length (foreignSourcePacket @ nackForZero))). tsfbOverrunAt r)"
  "filter (\<lambda>r. \<not> rejectedFeedback exampleConfig (fst r))
      (butlast (remainders (foreignSourcePacket @ nackForZero) (length (foreignSourcePacket @ nackForZero))))
    = [(nackForZero, 16)]"
  "verdict (last (remainders (foreignSourcePacket @ nackForZero) (length (foreignSourcePacket @ nackForZero)))) = OK"
  by code_simp+

theorem rejected_feedback_is_skipped_witness:
  "\<not> (ENABLE_RETRANSMISSION exampleConfig
       \<and> (\<exists>r\<in>set (remainders (foreignSourcePacket @ nackForZero) (length (foreignSourcePacket @ nackForZero))). tsfbOverrunAt r))
   \<and> wellFormedHead foreignSourcePacket 16 \<and> 16 \<le> length foreignSourcePacket
   \<and> plainSubPacket foreignSourcePacket \<and> foreignSourcePacket ! 1 = 205
   \<and> 12 \<le> length foreignSourcePacket
   \<and> U32_AT (drop 8 foreignSourcePacket) \<noteq> kSourceID exampleConfig
   \<and> ENABLE_RETRANSMISSION exampleConfig
   \<and> parseRTCP_switch exampleConfig foreignSourcePacket (headerLengthOf foreignSourcePacket) oneFlushed
        = Inr (oneFlushed, [])
   \<and> parseRTCP exampleConfig (foreignSourcePacket @ nackForZero) oneFlushed
        = Inr (OK, walkEffects exampleConfig [(nackForZero, 16)] oneFlushed)
   \<and> parseRTCP exampleConfig (foreignSourcePacket @ nackForZero) oneFlushed
        = parseRTCP exampleConfig nackForZero oneFlushed
   \<and> (case parseRTCP exampleConfig (foreignSourcePacket @ nackForZero) oneFlushed of
         Inl e \<Rightarrow> False
       | Inr (st, s', out) \<Rightarrow> st = OK \<and> length out = 1)"
proof -
  note T = rejected_feedback_is_skipped [where sz = 16 and data = foreignSourcePacket
      and pkt = foreignSourcePacket and rest = nackForZero and cfg = exampleConfig and s = oneFlushed
      and buffer = "foreignSourcePacket @ nackForZero" and seqNo = 0 and blp = 0]
  have en: "ENABLE_RETRANSMISSION exampleConfig" by (simp add: exampleConfig_def)
  have eq: "parseRTCP exampleConfig (foreignSourcePacket @ nackForZero) oneFlushed
        = parseRTCP exampleConfig nackForZero oneFlushed"
    using T example_packets by simp
  have w: "parseRTCP exampleConfig (foreignSourcePacket @ nackForZero) oneFlushed
        = Inr (OK, walkEffects exampleConfig [(nackForZero, 16)] oneFlushed)"
    using T skipped_walk_eval by simp
  have sw: "parseRTCP_switch exampleConfig foreignSourcePacket (headerLengthOf foreignSourcePacket) oneFlushed
        = Inr (oneFlushed, [])"
    using T example_packets by simp
  show ?thesis
    using skipped_walk_eval(1) example_packets en eq w sw nackForZero_eval
    by (simp only: eq) simp
qed

section \<open>NACK entries and retransmission\<close>

lemma bitRequested_iff:
  "bitRequested seqNo blp t \<longleftrightarrow> (\<exists>i<16. bit blp i \<and> t = seqNo + of_nat i + 1)"
  by (auto simp: bitRequested_def list_ex_iff)

lemma size_t_compare:
  "(unat (t :: 16 word) = (unat (seqNo :: 16 word) + i + 1) mod 65536) \<longleftrightarrow> t = seqNo + of_nat i + 1"
proof -
  have "unat (seqNo + of_nat i + 1) = (unat seqNo + i + 1) mod 65536"
    by (simp add: unat_word_ariths unat_of_nat mod_simps)
  then show ?thesis by (metis word_unat_eq_iff)
qed

lemma of_nat16_inj:
  assumes "i < 65536" "j < 65536" "(of_nat i :: 16 word) = of_nat j"
  shows "i = j"
proof -
  from assms(3) have "unat (of_nat i :: 16 word) = unat (of_nat j :: 16 word)" by simp
  with assms(1,2) show ?thesis by (simp add: unat_of_nat)
qed

lemma bit_target_inj:
  assumes "i < 16" "j < 16" "(seqNo :: 16 word) + of_nat i + 1 = seqNo + of_nat j + 1"
  shows "i = j"
proof -
  from assms(3) have "(of_nat i :: 16 word) = of_nat j" by simp
  with assms(1,2) show ?thesis by (intro of_nat16_inj) auto
qed

lemma bit_target_not_base:
  assumes "i < 16"
  shows "(seqNo :: 16 word) + of_nat i + 1 \<noteq> seqNo"
proof
  assume "seqNo + of_nat i + 1 = seqNo"
  then have "(of_nat i :: 16 word) + 1 = 0" by (simp add: add.assoc)
  then have "(of_nat (Suc i) :: 16 word) = of_nat 0" by (simp add: add.commute)
  with assms have "Suc i = 0" by (intro of_nat16_inj) auto
  then show False by simp
qed

text \<open>The bit loop, after n rounds.\<close>

lemma matchBits_rounds:
  fixes t seqNo blp :: "16 word"
  defines "f \<equiv> (\<lambda>i (b :: 16 word, r :: bool).
            if bit b i \<and> unat t = (unat seqNo + i + 1) mod 65536
            then (b AND NOT (push_bit i 1), True)
            else (b, r))"
  assumes "n \<le> 16"
  shows "fold f [0..<n] (blp, False)
       = (blp AND NOT (if \<exists>i<n. bit blp i \<and> t = seqNo + of_nat i + 1
                        then push_bit (THE i. i < n \<and> bit blp i \<and> t = seqNo + of_nat i + 1) 1 else 0),
          \<exists>i<n. bit blp i \<and> t = seqNo + of_nat i + 1)"
  using assms(2)
proof (induction n)
  case 0
  then show ?case by simp
next
  case (Suc n)
  let ?M = "\<lambda>i. bit blp i \<and> t = seqNo + of_nat i + 1"
  have f_eq: "f i (b, r) = (if bit b i \<and> t = seqNo + of_nat i + 1
                            then (b AND NOT (push_bit i 1), True) else (b, r))" for i b r
    unfolding f_def size_t_compare by simp
  have ih: "fold f [0..<n] (blp, False)
       = (blp AND NOT (if \<exists>i<n. ?M i then push_bit (THE i. i < n \<and> ?M i) 1 else 0), \<exists>i<n. ?M i)"
    using Suc by simp
  have step: "fold f [0..<Suc n] (blp, False) = f n (fold f [0..<n] (blp, False))"
    by simp
  show ?case
  proof (cases "\<exists>i<n. ?M i")
    case True
    then obtain i0 where i0: "i0 < n" "?M i0" by blast
    have uniq: "j = i0" if "j < Suc n" "?M j" for j
      using that i0 Suc.prems bit_target_inj [of j i0 seqNo] by auto
    have the1: "(THE i. i < n \<and> ?M i) = i0" using i0 uniq by (intro the_equality) auto
    have the2: "(THE i. i < Suc n \<and> ?M i) = i0" using i0 uniq by (intro the_equality) auto
    have ex2: "\<exists>i<Suc n. ?M i" using i0 by (auto intro: exI [of _ i0])
    have notn: "\<not> (bit (blp AND NOT (push_bit i0 1)) n \<and> t = seqNo + of_nat n + 1)"
      using uniq [of n] i0(1) by (auto simp: bit_and_iff)
    have A: "fold f [0..<n] (blp, False) = (blp AND NOT (push_bit i0 1), True)"
      unfolding ih using True by (simp only: the1 if_True)
    have "fold f [0..<Suc n] (blp, False) = f n (blp AND NOT (push_bit i0 1), True)"
      by (simp only: step A)
    also have "\<dots> = (blp AND NOT (push_bit i0 1), True)"
      using notn by (simp only: f_eq if_False)
    finally show ?thesis using ex2 by (simp only: the2 if_True)
  next
    case False
    have base: "fold f [0..<n] (blp, False) = (blp, False)"
      unfolding ih by (simp only: False if_False) simp
    show ?thesis
    proof (cases "?M n")
      case True
      have the2: "(THE i. i < Suc n \<and> ?M i) = n"
        using True False by (intro the_equality) (auto simp: less_Suc_eq)
      have ex2: "\<exists>i<Suc n. ?M i" using True by blast
      have "fold f [0..<Suc n] (blp, False) = f n (blp, False)"
        by (simp only: step base)
      also have "\<dots> = (blp AND NOT (push_bit n 1), True)"
        using True by (simp add: f_eq del: push_bit_of_1)
      finally show ?thesis using ex2 by (simp only: the2 if_True)
    next
      case F2: False
      have ex2: "\<not> (\<exists>i<Suc n. ?M i)" using False F2 by (auto simp: less_Suc_eq)
      have "fold f [0..<Suc n] (blp, False) = f n (blp, False)"
        by (simp only: step base)
      also have "\<dots> = (blp, False)"
        using F2 by (simp only: f_eq if_False)
      finally show ?thesis by (simp only: ex2 if_False) simp
    qed
  qed
qed

lemma matchBits_char:
  "matchBits seqNo t blp =
     (if bitRequested seqNo blp t
      then (blp AND NOT (push_bit (THE i. i < 16 \<and> bit blp i \<and> t = seqNo + of_nat i + 1) 1), True)
      else (blp, False))"
proof -
  have e: "matchBits seqNo t blp =
      (blp AND NOT (if \<exists>i<16. bit blp i \<and> t = seqNo + of_nat i + 1
                        then push_bit (THE i. i < 16 \<and> bit blp i \<and> t = seqNo + of_nat i + 1) 1 else 0),
          \<exists>i<16. bit blp i \<and> t = seqNo + of_nat i + 1)"
    unfolding matchBits_def by (rule matchBits_rounds [OF order.refl])
  show ?thesis
  proof (cases "\<exists>i<16. bit blp i \<and> t = seqNo + of_nat i + 1")
    case True
    show ?thesis unfolding e bitRequested_iff by (simp only: True if_True)
  next
    case False
    show ?thesis unfolding e bitRequested_iff by (simp only: False if_False) simp
  qed
qed

text \<open>Clearing the bit of one sequence number leaves the requests for all others as they were.\<close>

lemma bitRequested_cleared:
  assumes "i < 16" "bit blp i" "t' \<noteq> seqNo + of_nat i + 1"
  shows "bitRequested seqNo (blp AND NOT (push_bit i 1)) t' \<longleftrightarrow> bitRequested seqNo blp t'"
proof -
  have "bit (blp AND NOT (push_bit i 1)) j \<longleftrightarrow> bit blp j" if "j < 16" "j \<noteq> i" for j
    using that by (auto simp: bit_simps)
  then show ?thesis
    unfolding bitRequested_iff using assms(3) by metis
qed

lemma bitRequested_the:
  assumes "bitRequested seqNo blp t"
  shows "(THE i. i < 16 \<and> bit blp i \<and> t = seqNo + of_nat i + 1) < 16"
    and "bit blp (THE i. i < 16 \<and> bit blp i \<and> t = seqNo + of_nat i + 1)"
    and "t = seqNo + of_nat (THE i. i < 16 \<and> bit blp i \<and> t = seqNo + of_nat i + 1) + 1"
proof -
  from assms obtain i0 where i0: "i0 < 16" "bit blp i0" "t = seqNo + of_nat i0 + 1"
    unfolding bitRequested_iff by blast
  have "(THE i. i < 16 \<and> bit blp i \<and> t = seqNo + of_nat i + 1) = i0"
    using i0 bit_target_inj [of _ i0 seqNo] by (intro the_equality) auto
  with i0 show "(THE i. i < 16 \<and> bit blp i \<and> t = seqNo + of_nat i + 1) < 16"
    "bit blp (THE i. i < 16 \<and> bit blp i \<and> t = seqNo + of_nat i + 1)"
    "t = seqNo + of_nat (THE i. i < 16 \<and> bit blp i \<and> t = seqNo + of_nat i + 1) + 1"
    by simp_all
qed

lemma bitRequested_zero: "\<not> bitRequested seqNo 0 t"
  by (simp add: bitRequested_iff)

lemma bitRequested_not_base: "\<not> bitRequested seqNo blp seqNo"
  unfolding bitRequested_iff using bit_target_not_base [of _ seqNo] by metis

lemma length_retransmissions [simp]: "length (retransmissions session c bs) = length bs"
  by (induction bs arbitrary: c) simp_all

lemma nth_retransmissions:
  "j < length bs \<Longrightarrow>
   retransmissions session c bs ! j = SendRequest session (retransRTP (c + of_nat j) (tagOf (bs ! j)) (bs ! j))"
proof (induction bs arbitrary: c j)
  case Nil
  then show ?case by simp
next
  case (Cons b bs)
  show ?case
  proof (cases j)
    case 0
    then show ?thesis by simp
  next
    case (Suc k)
    with Cons.prems have "k < length bs" by simp
    have "c + 1 + of_nat k = c + of_nat (Suc k)" by simp
    with Cons.IH [OF \<open>k < length bs\<close>, of "c + 1"] Suc show ?thesis by simp
  qed
qed

text \<open>One buffer of the history that the entry does not ask for, and one that it does.\<close>

lemma scanHistory_skip:
  assumes "\<not> requested seqNo blp (tagOf b)"
  shows "scanHistory seqNo (b # rest) blp found s = scanHistory seqNo rest blp found s"
proof -
  from assms have ne: "tagOf b \<noteq> seqNo" and nb: "\<not> bitRequested seqNo blp (tagOf b)"
    by (simp_all add: requested_def)
  have m: "matchBits seqNo (tagOf b) blp = (blp, False)"
    using nb by (simp add: matchBits_char)
  show ?thesis
    using ne m by (simp add: tagOf_def [symmetric] Let_def)
qed

lemma scanHistory_hit:
  assumes "requested seqNo blp (tagOf b)"
  shows "scanHistory seqNo (b # rest) blp found s =
    (let blp1 = blpAfter seqNo blp (tagOf b);
         found1 = (found \<or> tagOf b = seqNo);
         s1 = s\<lparr>mRTPRetransmissionSeqNo := mRTPRetransmissionSeqNo s + 1\<rparr>;
         sent = SendRequest (mRTPRetransmissionSessionID s)
                  (retransRTP (mRTPRetransmissionSeqNo s) (tagOf b) b)
     in if found1 \<and> blp1 = 0 then (blp1, found1, s1, [sent])
        else (case scanHistory seqNo rest blp1 found1 s1 of
                (blp', found', s', out) \<Rightarrow> (blp', found', s', sent # out)))"
proof (cases "tagOf b = seqNo")
  case True
  then show ?thesis
    by (simp add: tagOf_def [symmetric] Let_def blpAfter_def)
next
  case False
  with assms have br: "bitRequested seqNo blp (tagOf b)" by (simp add: requested_def)
  then have nz: "blp \<noteq> 0" using bitRequested_zero by metis
  have m: "snd (matchBits seqNo (tagOf b) blp) = True"
    using br by (simp add: matchBits_char)
  obtain blp1 where m1: "matchBits seqNo (tagOf b) blp = (blp1, True)"
    using m by (cases "matchBits seqNo (tagOf b) blp") auto
  show ?thesis
    using False nz m1 by (simp add: tagOf_def [symmetric] Let_def blpAfter_def)
qed

lemma blpAfter_requested:
  assumes "requested seqNo blp t" "t' \<noteq> t"
  shows "requested seqNo (blpAfter seqNo blp t) t' \<longleftrightarrow> requested seqNo blp t'"
proof (cases "t = seqNo \<or> blp = 0")
  case True
  then show ?thesis by (simp add: blpAfter_def)
next
  case False
  with assms(1) have br: "bitRequested seqNo blp t" by (simp add: requested_def)
  note th = bitRequested_the [OF br]
  have "blpAfter seqNo blp t =
     blp AND NOT (push_bit (THE i. i < 16 \<and> bit blp i \<and> t = seqNo + of_nat i + 1) 1)"
    using False br by (simp add: blpAfter_def matchBits_char del: push_bit_of_1)
  moreover have "t' \<noteq> seqNo + of_nat (THE i. i < 16 \<and> bit blp i \<and> t = seqNo + of_nat i + 1) + 1"
    using th(3) assms(2) by simp
  ultimately show ?thesis
    using bitRequested_cleared [OF th(1) th(2)] by (simp add: requested_def del: push_bit_of_1)
qed

lemma filter_requested_empty:
  assumes "seqNo \<notin> tagOf ` set rest" "\<forall>b\<in>set rest. \<not> bitRequested seqNo blp (tagOf b)"
  shows "filter (\<lambda>b. requested seqNo blp (tagOf b)) rest = []"
  using assms by (auto simp: filter_empty_conv requested_def)

lemma scanHistory_char:
  assumes "distinct (map tagOf rest)" "found \<longrightarrow> seqNo \<notin> tagOf ` set rest"
  shows "\<exists>blp'. scanHistory seqNo rest blp found s =
     (blp', found \<or> seqNo \<in> tagOf ` set rest,
      s\<lparr>mRTPRetransmissionSeqNo := mRTPRetransmissionSeqNo s
            + of_nat (length (filter (\<lambda>b. requested seqNo blp (tagOf b)) rest))\<rparr>,
      retransmissions (mRTPRetransmissionSessionID s) (mRTPRetransmissionSeqNo s)
        (filter (\<lambda>b. requested seqNo blp (tagOf b)) rest))"
  using assms
proof (induction rest arbitrary: blp found s)
  case Nil
  then show ?case by simp
next
  case (Cons b rest)
  let ?t = "tagOf b"
  have d: "distinct (map tagOf rest)" and nt: "?t \<notin> tagOf ` set rest"
    using Cons.prems(1) by auto
  show ?case
  proof (cases "requested seqNo blp ?t")
    case False
    then have ne: "?t \<noteq> seqNo" by (simp add: requested_def)
    have f: "found \<longrightarrow> seqNo \<notin> tagOf ` set rest" using Cons.prems(2) by auto
    from Cons.IH [OF d f, of blp s] obtain blp' where
      ih: "scanHistory seqNo rest blp found s =
        (blp', found \<or> seqNo \<in> tagOf ` set rest,
         s\<lparr>mRTPRetransmissionSeqNo := mRTPRetransmissionSeqNo s
            + of_nat (length (filter (\<lambda>b. requested seqNo blp (tagOf b)) rest))\<rparr>,
         retransmissions (mRTPRetransmissionSessionID s) (mRTPRetransmissionSeqNo s)
           (filter (\<lambda>b. requested seqNo blp (tagOf b)) rest))" by blast
    show ?thesis
      unfolding scanHistory_skip [OF False] ih using False ne by auto
  next
    case True
    let ?blp1 = "blpAfter seqNo blp ?t"
    let ?found1 = "found \<or> ?t = seqNo"
    let ?s1 = "s\<lparr>mRTPRetransmissionSeqNo := mRTPRetransmissionSeqNo s + 1\<rparr>"
    let ?sent = "SendRequest (mRTPRetransmissionSessionID s) (retransRTP (mRTPRetransmissionSeqNo s) ?t b)"
    have same: "filter (\<lambda>b. requested seqNo ?blp1 (tagOf b)) rest
              = filter (\<lambda>b. requested seqNo blp (tagOf b)) rest"
    proof (intro filter_cong refl)
      fix x assume "x \<in> set rest"
      with nt have "tagOf x \<noteq> ?t" by (metis imageI)
      then show "requested seqNo ?blp1 (tagOf x) = requested seqNo blp (tagOf x)"
        by (rule blpAfter_requested [OF True])
    qed
    have f1: "?found1 \<longrightarrow> seqNo \<notin> tagOf ` set rest"
      using Cons.prems(2) nt by auto
    have fnd: "(?found1 \<or> seqNo \<in> tagOf ` set rest) = (found \<or> seqNo \<in> tagOf ` set (b # rest))"
      by auto
    show ?thesis
    proof (cases "?found1 \<and> ?blp1 = 0")
      case brk: True
      have "\<forall>b\<in>set rest. \<not> bitRequested seqNo ?blp1 (tagOf b)"
        using brk bitRequested_zero by simp
      with f1 brk have "filter (\<lambda>b. requested seqNo ?blp1 (tagOf b)) rest = []"
        by (intro filter_requested_empty) auto
      then have e: "filter (\<lambda>b. requested seqNo blp (tagOf b)) rest = []"
        unfolding same .
      have l: "filter (\<lambda>b. requested seqNo blp (tagOf b)) (b # rest) = [b]"
        using True e by simp
      have r: "scanHistory seqNo (b # rest) blp found s = (?blp1, ?found1, ?s1, [?sent])"
        unfolding scanHistory_hit [OF True] Let_def
        using brk by simp
      have fb: "?found1 = (found \<or> seqNo \<in> tagOf ` set (b # rest))"
        using brk f1 by auto
      show ?thesis
        unfolding r l using fb by simp
    next
      case cont: False
      from Cons.IH [OF d f1, of ?blp1 ?s1] obtain blp' where
        ih: "scanHistory seqNo rest ?blp1 ?found1 ?s1 =
          (blp', ?found1 \<or> seqNo \<in> tagOf ` set rest,
           ?s1\<lparr>mRTPRetransmissionSeqNo := mRTPRetransmissionSeqNo ?s1
              + of_nat (length (filter (\<lambda>b. requested seqNo ?blp1 (tagOf b)) rest))\<rparr>,
           retransmissions (mRTPRetransmissionSessionID ?s1) (mRTPRetransmissionSeqNo ?s1)
             (filter (\<lambda>b. requested seqNo ?blp1 (tagOf b)) rest))" by blast
      have l: "filter (\<lambda>b. requested seqNo blp (tagOf b)) (b # rest)
             = b # filter (\<lambda>b. requested seqNo blp (tagOf b)) rest"
        using True by simp
      have r: "scanHistory seqNo (b # rest) blp found s =
         (blp', ?found1 \<or> seqNo \<in> tagOf ` set rest,
           ?s1\<lparr>mRTPRetransmissionSeqNo := mRTPRetransmissionSeqNo ?s1
              + of_nat (length (filter (\<lambda>b. requested seqNo blp (tagOf b)) rest))\<rparr>,
           ?sent # retransmissions (mRTPRetransmissionSessionID ?s1) (mRTPRetransmissionSeqNo ?s1)
             (filter (\<lambda>b. requested seqNo blp (tagOf b)) rest))"
        unfolding scanHistory_hit [OF True] Let_def
        by (simp only: cont if_False ih [unfolded same] prod.case)
      show ?thesis
        unfolding r l fnd by (simp add: add.assoc)
    qed
  qed
qed

lemma retransRTP_form:
  assumes "bufferOk b"
  shows "retransRTP c t b =
     (take 12 (bdata b))[2 := ucast (drop_bit 8 c AND 0xff), 3 := ucast (c AND 0xff)]
     @ [ucast (drop_bit 8 t AND 0xff), ucast (t AND 0xff)]
     @ drop 12 (contents b)"
proof -
  let ?H = "take 12 (bdata b)"
  let ?R = "replicate (bsize b - 10) (0 :: byte)"
  let ?P = "take (bsize b - 12) (drop 12 (bdata b))"
  from assms have s: "12 \<le> bsize b" "bsize b \<le> length (bdata b)" by (simp_all add: bufferOk_def)
  then have lH: "length ?H = 12" by simp
  have lP: "length ?P = bsize b - 12" using s by simp
  have R: "?R = 0 # 0 # replicate (bsize b - 12) 0"
  proof -
    from s have "bsize b - 10 = Suc (Suc (bsize b - 12))" by simp
    then show ?thesis by (simp only: replicate_Suc)
  qed
  have 1: "memcpy (replicate (2 + bsize b) 0) 0 ?H = ?H @ ?R"
    using s by (simp add: memcpy_def)
  have 2: "(?H @ ?R)[2 := x2, 3 := x3, 12 := x12, 13 := x13]
         = ?H[2 := x2, 3 := x3] @ x12 # x13 # replicate (bsize b - 12) 0" for x2 x3 x12 x13 :: byte
    unfolding R using lH by (simp add: list_update_append)
  have 3: "memcpy (?H[2 := x2, 3 := x3] @ x12 # x13 # replicate (bsize b - 12) 0) 14 ?P
         = ?H[2 := x2, 3 := x3] @ [x12, x13] @ ?P" for x2 x3 x12 x13 :: byte
    using lH lP by (simp add: memcpy_def)
  have 4: "?P = drop 12 (contents b)"
    by (simp add: contents_def drop_take)
  show ?thesis
    unfolding retransRTP_def Let_def 1 2 3 by (simp only: 4)
qed

lemma retransRTP_is:
  assumes "bufferOk b"
  shows "isRetransmissionOf (retransRTP c (tagOf b) b) (ucast c) b"
proof -
  let ?H = "take 12 (bdata b)"
  let ?H' = "?H[2 := ucast (drop_bit 8 c AND 0xff), 3 := ucast (c AND 0xff)]"
  let ?T = "[ucast (drop_bit 8 (tagOf b) AND 0xff), ucast (tagOf b AND 0xff)] :: byte list"
  from assms have s: "12 \<le> bsize b" "bsize b \<le> length (bdata b)" by (simp_all add: bufferOk_def)
  then have lH: "length ?H' = 12" by simp
  have lc: "length (drop 12 (contents b)) = bsize b - 12" using s by (simp add: contents_def)
  note f = retransRTP_form [OF assms, of c "tagOf b"]
  have a: "length (retransRTP c (tagOf b) b) = bsize b + 2"
    unfolding f using lH lc s by simp
  have b: "take 2 (retransRTP c (tagOf b) b) = take 2 (bdata b)"
    unfolding f using lH by simp
  have d2: "drop 2 (retransRTP c (tagOf b) b) = drop 2 ?H' @ ?T @ drop 12 (contents b)"
    unfolding f using lH by simp
  have "drop 2 ?H' ! 0 = ucast (drop_bit 8 c AND 0xff)" "drop 2 ?H' ! 1 = ucast (c AND 0xff)"
    using s by simp_all
  then have c: "U16_AT (drop 2 (retransRTP c (tagOf b) b)) = ucast c"
    unfolding d2 U16_AT_def using lH by (simp add: nth_append be16_of32)
  have d: "take 8 (drop 4 (retransRTP c (tagOf b) b)) = take 8 (drop 4 (bdata b))"
    unfolding f using lH s by (simp add: drop_take)
  have d12: "drop 12 (retransRTP c (tagOf b) b) = ?T @ drop 12 (contents b)"
    unfolding f using lH by simp
  have e: "U16_AT (drop 12 (retransRTP c (tagOf b) b)) = tagOf b"
    unfolding d12 U16_AT_def by (simp add: be16_of16)
  have g: "drop 14 (retransRTP c (tagOf b) b) = drop 12 (contents b)"
    unfolding f using lH by simp
  show ?thesis
    unfolding isRetransmissionOf_def using a b c d e g by blast
qed

lemma count_requested:
  assumes "distinct (map tagOf hist)"
  shows "length (filter (\<lambda>b. requested seqNo blp (tagOf b)) hist)
       = (if seqNo \<in> tagOf ` set hist then 1 else 0)
         + length (filter (\<lambda>b. bitRequested seqNo blp (tagOf b)) hist)"
  using assms
proof (induction hist)
  case Nil
  then show ?case by simp
next
  case (Cons a hist)
  then have ih: "length (filter (\<lambda>b. requested seqNo blp (tagOf b)) hist)
       = (if seqNo \<in> tagOf ` set hist then 1 else 0)
         + length (filter (\<lambda>b. bitRequested seqNo blp (tagOf b)) hist)"
    and na: "tagOf a \<notin> tagOf ` set hist" by auto
  show ?case
  proof (cases "tagOf a = seqNo")
    case True
    then have "\<not> bitRequested seqNo blp (tagOf a)" "requested seqNo blp (tagOf a)"
      "seqNo \<notin> tagOf ` set hist"
      using bitRequested_not_base na by (simp_all add: requested_def)
    then show ?thesis using ih True by simp
  next
    case False
    then have "requested seqNo blp (tagOf a) = bitRequested seqNo blp (tagOf a)"
      by (simp add: requested_def)
    then show ?thesis using ih False by auto
  qed
qed

lemma scanHistory_state:
  "scanHistory seqNo hist blp f s = (b', f', s', out) \<Longrightarrow>
   s' = s\<lparr>mRTPRetransmissionSeqNo := mRTPRetransmissionSeqNo s + of_nat (length out)\<rparr>"
proof (induction hist arbitrary: blp f s b' f' s' out)
  case Nil
  then show ?case by simp
next
  case (Cons b rest)
  show ?case
  proof (cases "requested seqNo blp (tagOf b)")
    case False
    from Cons.prems have "scanHistory seqNo rest blp f s = (b', f', s', out)"
      unfolding scanHistory_skip [OF False] .
    then show ?thesis by (rule Cons.IH)
  next
    case True
    let ?blp1 = "blpAfter seqNo blp (tagOf b)"
    let ?found1 = "f \<or> tagOf b = seqNo"
    let ?s1 = "s\<lparr>mRTPRetransmissionSeqNo := mRTPRetransmissionSeqNo s + 1\<rparr>"
    let ?sent = "SendRequest (mRTPRetransmissionSessionID s) (retransRTP (mRTPRetransmissionSeqNo s) (tagOf b) b)"
    show ?thesis
    proof (cases "?found1 \<and> ?blp1 = 0")
      case brk: True
      have "scanHistory seqNo (b # rest) blp f s = (?blp1, ?found1, ?s1, [?sent])"
        unfolding scanHistory_hit [OF True] Let_def using brk by simp
      with Cons.prems show ?thesis by simp
    next
      case cont: False
      obtain b2 f2 s2 out2 where r: "scanHistory seqNo rest ?blp1 ?found1 ?s1 = (b2, f2, s2, out2)"
        by (metis prod_cases4)
      have "scanHistory seqNo (b # rest) blp f s = (b2, f2, s2, ?sent # out2)"
        unfolding scanHistory_hit [OF True] Let_def
        by (simp only: cont if_False r prod.case)
      with Cons.prems have e: "s' = s2" "out = ?sent # out2" by simp_all
      from Cons.IH [OF r] show ?thesis unfolding e by (simp add: add.assoc)
    qed
  qed
qed

lemma serveEntries_state:
  "serveEntries es s = (s', out) \<Longrightarrow>
   s' = s\<lparr>mRTPRetransmissionSeqNo := mRTPRetransmissionSeqNo s + of_nat (length out)\<rparr>"
proof (induction es arbitrary: s s' out)
  case Nil
  then show ?case by simp
next
  case (Cons e es)
  obtain seqNo blp where e: "e = (seqNo, blp)" by (cases e)
  obtain b1 f1 s1 out1 where r: "scanHistory seqNo (mHistory s) blp False s = (b1, f1, s1, out1)"
    by (metis prod_cases4)
  obtain s2 out2 where q: "serveEntries es s1 = (s2, out2)" by (cases "serveEntries es s1")
  from Cons.prems have x: "s' = s2" "out = out1 @ out2" unfolding e by (simp_all add: r q)
  from scanHistory_state [OF r] Cons.IH [OF q] show ?case
    unfolding x by (simp add: add.assoc)
qed

lemma nack_entry_scan:
  assumes "distinct (map tagOf (mHistory s))" and "list_all bufferOk (mHistory s)"
    and "seqNo \<in> tagOf ` set (mHistory s)"
  shows "case scanHistory seqNo (mHistory s) blp False s of
           (blp', foundSeqNo, s', out) \<Rightarrow>
             foundSeqNo
           \<and> length out = length (filter (\<lambda>b. bitRequested seqNo blp (tagOf b)) (mHistory s)) + 1
           \<and> length (filter (\<lambda>b. requested seqNo blp (tagOf b)) (mHistory s)) = length out
           \<and> (\<forall>j<length out. \<exists>pkt.
                 out ! j = SendRequest (mRTPRetransmissionSessionID s) pkt
               \<and> isRetransmissionOf pkt (ucast (mRTPRetransmissionSeqNo s) + of_nat j)
                    (filter (\<lambda>b. requested seqNo blp (tagOf b)) (mHistory s) ! j))
           \<and> s' = s\<lparr>mRTPRetransmissionSeqNo := mRTPRetransmissionSeqNo s + of_nat (length out)\<rparr>"
proof -
  let ?M = "filter (\<lambda>b. requested seqNo blp (tagOf b)) (mHistory s)"
  from scanHistory_char [OF assms(1), of False seqNo blp s] obtain blp' where
    r: "scanHistory seqNo (mHistory s) blp False s =
     (blp', False \<or> seqNo \<in> tagOf ` set (mHistory s),
      s\<lparr>mRTPRetransmissionSeqNo := mRTPRetransmissionSeqNo s + of_nat (length ?M)\<rparr>,
      retransmissions (mRTPRetransmissionSessionID s) (mRTPRetransmissionSeqNo s) ?M)"
    by auto
  have n: "length ?M = length (filter (\<lambda>b. bitRequested seqNo blp (tagOf b)) (mHistory s)) + 1"
    using count_requested [OF assms(1), of seqNo blp] assms(3) by simp
  have pk: "\<exists>pkt. retransmissions (mRTPRetransmissionSessionID s) (mRTPRetransmissionSeqNo s) ?M ! j
               = SendRequest (mRTPRetransmissionSessionID s) pkt
            \<and> isRetransmissionOf pkt (ucast (mRTPRetransmissionSeqNo s) + of_nat j) (?M ! j)"
    if "j < length ?M" for j
  proof -
    from that have "?M ! j \<in> set ?M" by (rule nth_mem)
    then have "?M ! j \<in> set (mHistory s)" by simp
    with assms(2) have ok: "bufferOk (?M ! j)" by (simp add: list_all_iff)
    have "isRetransmissionOf (retransRTP (mRTPRetransmissionSeqNo s + of_nat j) (tagOf (?M ! j)) (?M ! j))
            (ucast (mRTPRetransmissionSeqNo s) + of_nat j) (?M ! j)"
      using retransRTP_is [OF ok, of "mRTPRetransmissionSeqNo s + of_nat j"]
      by (simp add: ucast_down_add ucast_down_of_nat)
    then show ?thesis using nth_retransmissions [OF that] by blast
  qed
  show ?thesis
    unfolding r using assms(3) n pk by simp
qed

text \<open>
  C6. The NACK handler serves every 4-byte entry of a feedback packet it accepts, in
  order, each by one scan of the history. For every entry whose base sequence number is
  in the history and whose bitmask bits match k further packets of the history, the scan
  sends exactly k + 1 retransmission packets, for the matched packets in history order;
  in what the handler sends they follow the packets of the entries before and precede
  those of the entries after. Each is the matched packet's 12-byte header with bytes 2-3
  replaced by the retransmission counter, which advances by one from packet to packet
  and from entry to entry, then the original sequence number in two bytes, then the
  original payload. The history is one the packetizer builds: its sequence numbers are
  pairwise distinct (see \<open>historyInv_distinct\<close>).
\<close>

theorem nack_entry_retransmissions:
  assumes "distinct (map tagOf (mHistory s))" and "list_all bufferOk (mHistory s)"
    and "(data ! 0) AND 0x1f = 1" and "12 \<le> length data"
    and "U32_AT (drop 8 data) = kSourceID cfg"
    and "sz \<le> length data" and "sz mod 4 = 0"
    and "j < length (nackEntries data sz)" and "nackEntries data sz ! j = (seqNo, blp)"
    and "seqNo \<in> tagOf ` set (mHistory s)"
  shows "case serveEntries (take j (nackEntries data sz)) s of
           (s1, out1) \<Rightarrow>
         (case scanHistory seqNo (mHistory s1) blp False s1 of
           (blp', foundSeqNo, s2, out2) \<Rightarrow>
         (case serveEntries (drop (Suc j) (nackEntries data sz)) s2 of
           (s3, out3) \<Rightarrow>
             parseTSFB cfg data sz s = Inr (OK, s3, out1 @ out2 @ out3)
           \<and> s1 = s\<lparr>mRTPRetransmissionSeqNo := mRTPRetransmissionSeqNo s + of_nat (length out1)\<rparr>
           \<and> foundSeqNo
           \<and> length out2 = length (filter (\<lambda>b. bitRequested seqNo blp (tagOf b)) (mHistory s)) + 1
           \<and> length (filter (\<lambda>b. requested seqNo blp (tagOf b)) (mHistory s)) = length out2
           \<and> (\<forall>i<length out2. \<exists>pkt.
                 out2 ! i = SendRequest (mRTPRetransmissionSessionID s) pkt
               \<and> isRetransmissionOf pkt
                    (ucast (mRTPRetransmissionSeqNo s) + of_nat (length out1) + of_nat i)
                    (filter (\<lambda>b. requested seqNo blp (tagOf b)) (mHistory s) ! i))
           \<and> s2 = s\<lparr>mRTPRetransmissionSeqNo :=
                       mRTPRetransmissionSeqNo s + of_nat (length out1) + of_nat (length out2)\<rparr>))"
proof -
  let ?es = "nackEntries data sz"
  obtain s1 out1 where e1: "serveEntries (take j ?es) s = (s1, out1)"
    by (cases "serveEntries (take j ?es) s")
  obtain b2 f2 s2 out2 where e2: "scanHistory seqNo (mHistory s1) blp False s1 = (b2, f2, s2, out2)"
    by (metis prod_cases4)
  obtain s3 out3 where e3: "serveEntries (drop (Suc j) ?es) s2 = (s3, out3)"
    by (cases "serveEntries (drop (Suc j) ?es) s2")
  have s1: "s1 = s\<lparr>mRTPRetransmissionSeqNo := mRTPRetransmissionSeqNo s + of_nat (length out1)\<rparr>"
    by (rule serveEntries_state [OF e1])
  have h1: "mHistory s1 = mHistory s" "mRTPRetransmissionSessionID s1 = mRTPRetransmissionSessionID s"
    "mRTPRetransmissionSeqNo s1 = mRTPRetransmissionSeqNo s + of_nat (length out1)"
    by (subst s1, simp)+
  have split: "?es = take j ?es @ (seqNo, blp) # drop (Suc j) ?es"
    using id_take_nth_drop [OF assms(8)] assms(9) by simp
  have "serveEntries ?es s = (s3, out1 @ out2 @ out3)"
    by (subst split) (simp add: serveEntries_append e1 e2 e3)
  then have run: "parseTSFB cfg data sz s = Inr (OK, s3, out1 @ out2 @ out3)"
    using parseTSFB_accepted [OF assms(3,4,5,6,7), of s] by simp
  have d: "distinct (map tagOf (mHistory s1))" "list_all bufferOk (mHistory s1)"
    "seqNo \<in> tagOf ` set (mHistory s1)"
    using assms(1,2,10) unfolding h1 by simp_all
  note sc0 = nack_entry_scan [OF d, of blp, unfolded e2 prod.case]
  note sc = sc0 [unfolded h1]
  have s2: "s2 = s\<lparr>mRTPRetransmissionSeqNo :=
                       mRTPRetransmissionSeqNo s + of_nat (length out1) + of_nat (length out2)\<rparr>"
    using sc by (subst (asm) s1) simp
  have pk: "\<forall>i<length out2. \<exists>pkt.
                 out2 ! i = SendRequest (mRTPRetransmissionSessionID s) pkt
               \<and> isRetransmissionOf pkt
                    (ucast (mRTPRetransmissionSeqNo s) + of_nat (length out1) + of_nat i)
                    (filter (\<lambda>b. requested seqNo blp (tagOf b)) (mHistory s) ! i)"
    using sc by (simp add: ucast_down_add ucast_down_of_nat)
  show ?thesis
    unfolding e1 prod.case e2 e3
    using run s1 sc s2 pk by blast
qed

section \<open>The bounded history\<close>

lemma consecutiveTags_nth:
  "consecutiveTags base hist \<longleftrightarrow> (\<forall>i<length hist. int32Data (hist ! i) = base + of_nat i)"
  unfolding consecutiveTags_def by (subst list_eq_iff_nth_eq) simp

lemma consecutiveTags_snoc:
  assumes "consecutiveTags base hist" "int32Data q = base + of_nat (length hist)"
  shows "consecutiveTags base (hist @ [q])"
  unfolding consecutiveTags_nth
proof (intro allI impI)
  fix i assume "i < length (hist @ [q])"
  then consider "i < length hist" | "i = length hist" by fastforce
  then show "int32Data ((hist @ [q]) ! i) = base + of_nat i"
  proof cases
    case 1
    with assms(1) show ?thesis by (simp add: consecutiveTags_nth nth_append)
  next
    case 2
    with assms(2) show ?thesis by simp
  qed
qed

lemma consecutiveTags_tl:
  assumes "consecutiveTags base hist"
  shows "consecutiveTags (base + 1) (tl hist)"
  unfolding consecutiveTags_nth
proof (intro allI impI)
  fix i assume i: "i < length (tl hist)"
  then have "Suc i < length hist" by simp
  with assms have "int32Data (hist ! Suc i) = base + of_nat (Suc i)"
    by (simp only: consecutiveTags_nth)
  moreover have "tl hist ! i = hist ! Suc i" using i by (simp add: nth_tl)
  ultimately show "int32Data (tl hist ! i) = base + 1 + of_nat i" by simp
qed

lemma tagOf_ucast: "tagOf b = ucast (int32Data b)"
proof -
  have m: "(0xffff :: 32 word) = mask 16" by (simp add: mask_eq_exp_minus_1)
  show ?thesis
    unfolding tagOf_def m
    by (rule bit_word_eqI) (auto simp: bit_simps)
qed

lemma consecutive_distinct:
  assumes "consecutiveTags base hist" "length hist \<le> 65536"
  shows "distinct (map tagOf hist)"
proof -
  have t: "map tagOf hist = map (\<lambda>i. ucast base + of_nat i) [0..<length hist]"
  proof -
    have "map tagOf hist = map ucast (map int32Data hist)"
      by (simp add: tagOf_ucast [abs_def] comp_def)
    also have "\<dots> = map (\<lambda>i. ucast (base + of_nat i)) [0..<length hist]"
      using assms(1) by (simp add: consecutiveTags_def comp_def)
    finally show ?thesis by (simp add: ucast_down_add ucast_down_of_nat)
  qed
  have "inj_on (\<lambda>i. (ucast base :: 16 word) + of_nat i) (set [0..<length hist])"
  proof (rule inj_onI)
    fix i j assume "i \<in> set [0..<length hist]" "j \<in> set [0..<length hist]"
      and e: "(ucast base :: 16 word) + of_nat i = ucast base + of_nat j"
    then have "i < 65536" "j < 65536" using assms(2) by auto
    moreover from e have "(of_nat i :: 16 word) = of_nat j" by simp
    ultimately show "i = j" by (rule of_nat16_inj)
  qed
  then show ?thesis unfolding t by (simp add: distinct_map)
qed

lemma historyInv_distinct:
  "historyInv cfg s \<Longrightarrow> kMaxHistoryLength cfg \<le> 65536 \<Longrightarrow> distinct (map tagOf (mHistory s))"
  by (auto simp: historyInv_def intro: consecutive_distinct)

text \<open>What a flush does to the history and to the queue buffer.\<close>

lemma flush_history_effect:
  assumes "ENABLE_RETRANSMISSION cfg"
  shows "mHistory (fst (appendTSData_flush cfg clk td s)) =
           (let full = mHistory s @ [(mTSQueue s)\<lparr>bdata := stampHeader cfg td (mRTPSeqNo s)
                                        (rtpTimeOf (clk (nowReads s))) (bdata (mTSQueue s)),
                                      int32Data := mRTPSeqNo s\<rparr>]
            in if mHistoryLength s + 1 > kMaxHistoryLength cfg then tl full else full)"
    and "mTSQueue (fst (appendTSData_flush cfg clk td s)) =
           (let full = mHistory s @ [(mTSQueue s)\<lparr>bdata := stampHeader cfg td (mRTPSeqNo s)
                                        (rtpTimeOf (clk (nowReads s))) (bdata (mTSQueue s)),
                                      int32Data := mRTPSeqNo s\<rparr>]
            in if mHistoryLength s + 1 > kMaxHistoryLength cfg
               then (hd full)\<lparr>bsize := 12\<rparr>
               else (new_ABuffer (12 + kMaxNumTSPacketsPerRTPPacket * 188))\<lparr>bsize := 12\<rparr>)"
    and "mHistoryLength (fst (appendTSData_flush cfg clk td s)) =
           (if mHistoryLength s + 1 > kMaxHistoryLength cfg
            then mHistoryLength s else mHistoryLength s + 1)"
  using assms by (simp_all add: appendTSData_flush_def GetNowUs_def Let_def)

lemma historyInv_flush:
  assumes "ENABLE_RETRANSMISSION cfg" "historyInv cfg s" "bufferOk (mTSQueue s)"
  shows "historyInv cfg (fst (appendTSData_flush cfg clk td s))"
proof -
  let ?q = "(mTSQueue s)\<lparr>bdata := stampHeader cfg td (mRTPSeqNo s)
               (rtpTimeOf (clk (nowReads s))) (bdata (mTSQueue s)), int32Data := mRTPSeqNo s\<rparr>"
  let ?full = "mHistory s @ [?q]"
  let ?n = "length (mHistory s)"
  let ?s' = "fst (appendTSData_flush cfg clk td s)"
  from assms(2) have len: "mHistoryLength s = ?n" and le: "?n \<le> kMaxHistoryLength cfg"
    and ok: "list_all bufferOk (mHistory s)"
    and ct: "consecutiveTags (mRTPSeqNo s - of_nat ?n) (mHistory s)"
    by (simp_all add: historyInv_def)
  have okq: "bufferOk ?q" using assms(3) by (simp add: bufferOk_def)
  have okf: "list_all bufferOk ?full" using ok okq by simp
  have ctf: "consecutiveTags (mRTPSeqNo s - of_nat ?n) ?full"
    using ct by (rule consecutiveTags_snoc) simp
  have seq: "mRTPSeqNo ?s' = mRTPSeqNo s + 1" by (rule flush_seq)
  note eff = flush_history_effect [OF assms(1), of clk td s, unfolded Let_def len]
  show ?thesis
  proof (cases "?n + 1 > kMaxHistoryLength cfg")
    case True
    then have h: "mHistory ?s' = tl ?full" and l: "mHistoryLength ?s' = ?n"
      using eff by simp_all
    have "consecutiveTags (mRTPSeqNo s - of_nat ?n + 1) (tl ?full)"
      using ctf by (rule consecutiveTags_tl)
    moreover have "list_all bufferOk (tl ?full)"
      using okf by (cases ?full) (simp_all del: list_all_append)
    ultimately show ?thesis
      unfolding historyInv_def h l seq using le by (simp add: algebra_simps)
  next
    case False
    then have h: "mHistory ?s' = ?full" and l: "mHistoryLength ?s' = ?n + 1"
      using eff by simp_all
    show ?thesis
      unfolding historyInv_def h l seq using False okf ctf by (simp add: algebra_simps)
  qed
qed

lemma historyInv_Sender_new: "historyInv cfg Sender_new"
  by (simp add: historyInv_def Sender_new_def consecutiveTags_def)

lemma evicted_not_found:
  assumes "distinct (map tagOf hist)" "e \<notin> tagOf ` set hist"
  shows "\<exists>blp' s' out. scanHistory e hist blp False s = (blp', False, s', out)"
    and "scanHistory e hist 0 False s = (0, False, s, []) \<or>
         (\<exists>blp'. scanHistory e hist 0 False s = (blp', False, s, []))"
proof -
  from scanHistory_char [OF assms(1), of False e blp s] assms(2)
  show "\<exists>blp' s' out. scanHistory e hist blp False s = (blp', False, s', out)" by auto
  have "filter (\<lambda>b. requested e 0 (tagOf b)) hist = []"
    using assms(2) bitRequested_zero by (intro filter_requested_empty) auto
  with scanHistory_char [OF assms(1), of False e 0 s] assms(2)
  show "scanHistory e hist 0 False s = (0, False, s, []) \<or>
         (\<exists>blp'. scanHistory e hist 0 False s = (blp', False, s, []))" by auto
qed

text \<open>
  C7. After a flush the history is again within the configured maximum. The flushed
  packet is appended; when that makes the length exceed the maximum exactly the oldest
  entry is removed and its buffer becomes the next accumulation buffer, otherwise a
  fresh buffer is allocated. A NACK for the evicted sequence number then finds no match:
  the base is not found, and the handler returns \<open>OK\<close> having sent nothing. (The
  maximum is a constant of Sender.h; it has to be below 65536 for the 16-bit sequence
  numbers of the history to be distinct.)
\<close>

theorem history_bounded_oldest_evicted:
  assumes "ENABLE_RETRANSMISSION cfg" and "kMaxHistoryLength cfg < 65536"
    and "queueInv s" and "historyInv cfg s"
    and "bsize (mTSQueue s) + 188 \<le> capacity (mTSQueue s)" and "188 \<le> length data"
    and "flush \<or> bsize (mTSQueue s) + 188 = capacity (mTSQueue s)"
  shows "case appendTSData cfg clk data 188 timeDiscontinuity flush s of
           Inl e \<Rightarrow> False
         | Inr (s', out) \<Rightarrow>
             historyInv cfg s' \<and> length (mHistory s') \<le> kMaxHistoryLength cfg
           \<and> mHistoryLength s' = length (mHistory s')
           \<and> (\<exists>q. int32Data q = mRTPSeqNo s \<and> map payloadOf out = [contents q]
                 \<and> capacity q = capacity (mTSQueue s)
                 \<and> (if length (mHistory s) + 1 > kMaxHistoryLength cfg
                     then mHistory s' = tl (mHistory s @ [q])
                        \<and> mTSQueue s' = (hd (mHistory s @ [q]))\<lparr>bsize := 12\<rparr>
                        \<and> tagOf (hd (mHistory s @ [q])) \<notin> tagOf ` set (mHistory s')
                        \<and> (\<forall>blp. \<exists>blp' s'' out'.
                              scanHistory (tagOf (hd (mHistory s @ [q]))) (mHistory s') blp False s'
                                = (blp', False, s'', out'))
                        \<and> parseTSFB cfg (nackPacket cfg (tagOf (hd (mHistory s @ [q]))) 0) 16 s'
                             = Inr (OK, s', [])
                     else mHistory s' = mHistory s @ [q]
                        \<and> mTSQueue s' = (new_ABuffer (12 + kMaxNumTSPacketsPerRTPPacket * 188))\<lparr>bsize := 12\<rparr>))"
proof -
  let ?q1 = "(mTSQueue s)\<lparr>bdata := memcpy (bdata (mTSQueue s)) (bsize (mTSQueue s)) (take 188 data),
                         bsize := bsize (mTSQueue s) + 188\<rparr>"
  let ?s1 = "s\<lparr>mTSQueue := ?q1\<rparr>"
  let ?rtp = "stampHeader cfg timeDiscontinuity (mRTPSeqNo s) (rtpTimeOf (clk (nowReads s))) (bdata ?q1)"
  let ?q = "?q1\<lparr>bdata := ?rtp, int32Data := mRTPSeqNo s\<rparr>"
  let ?full = "mHistory s @ [?q]"
  let ?r = "appendTSData_flush cfg clk timeDiscontinuity ?s1"
  let ?s' = "fst ?r"
  let ?n = "length (mHistory s)"
  have len: "length (take 188 data) = 188" using assms(6) by simp
  have q0: "queue_ok (mTSQueue s)" using assms(3) by (simp add: queueInv_def)
  have qok: "queue_ok ?q1" using queue_ok_append [OF q0 assms(5) len] .
  have cap1: "capacity ?q1 = capacity (mTSQueue s)"
    using assms(5) len by (simp add: capacity_def length_memcpy)
  have run: "appendTSData cfg clk data 188 timeDiscontinuity flush s = Inr (?s', snd ?r)"
    using assms(5,6,7) cap1 by (auto simp: appendTSData_def Let_def)
  have out: "map payloadOf (snd ?r) = [contents ?q]"
    using flush_out [of cfg clk timeDiscontinuity ?s1] by (simp add: contents_def)
  have ok1: "bufferOk ?q1" using qok by (simp add: queue_ok_def bufferOk_def capacity_def)
  have inv1: "historyInv cfg ?s1" using assms(4) by (simp add: historyInv_def)
  have inv': "historyInv cfg ?s'" using historyInv_flush [OF assms(1) inv1] ok1 by simp
  then have bound: "length (mHistory ?s') \<le> kMaxHistoryLength cfg"
    and hl: "mHistoryLength ?s' = length (mHistory ?s')" by (simp_all add: historyInv_def)
  from assms(4) have l0: "mHistoryLength s = ?n" and le: "?n \<le> kMaxHistoryLength cfg"
    and ct: "consecutiveTags (mRTPSeqNo s - of_nat ?n) (mHistory s)"
    by (simp_all add: historyInv_def)
  note eff = flush_history_effect [OF assms(1), of clk timeDiscontinuity ?s1, unfolded Let_def]
  have capq: "capacity ?q = capacity (mTSQueue s)" using cap1 by (simp add: capacity_def)
  have branch: "if ?n + 1 > kMaxHistoryLength cfg
                     then mHistory ?s' = tl ?full
                        \<and> mTSQueue ?s' = (hd ?full)\<lparr>bsize := 12\<rparr>
                        \<and> tagOf (hd ?full) \<notin> tagOf ` set (mHistory ?s')
                        \<and> (\<forall>blp. \<exists>blp' s'' out'.
                              scanHistory (tagOf (hd ?full)) (mHistory ?s') blp False ?s'
                                = (blp', False, s'', out'))
                        \<and> parseTSFB cfg (nackPacket cfg (tagOf (hd ?full)) 0) 16 ?s'
                             = Inr (OK, ?s', [])
                     else mHistory ?s' = ?full
                        \<and> mTSQueue ?s' = (new_ABuffer (12 + kMaxNumTSPacketsPerRTPPacket * 188))\<lparr>bsize := 12\<rparr>"
  proof (cases "?n + 1 > kMaxHistoryLength cfg")
    case False
    then show ?thesis using eff l0 by simp
  next
    case True
    then have h: "mHistory ?s' = tl ?full" and tq: "mTSQueue ?s' = (hd ?full)\<lparr>bsize := 12\<rparr>"
      using eff l0 by simp_all
    have "consecutiveTags (mRTPSeqNo s - of_nat ?n) ?full"
      using ct by (rule consecutiveTags_snoc) simp
    moreover have "length ?full \<le> 65536" using le assms(2) by simp
    ultimately have "distinct (map tagOf ?full)" by (rule consecutive_distinct)
    then have ev: "tagOf (hd ?full) \<notin> tagOf ` set (tl ?full)"
      and dt: "distinct (map tagOf (tl ?full))"
      by (cases ?full; simp del: map_append distinct_append)+
    note nf = evicted_not_found [OF dt ev]
    have single: "parseTSFB cfg (nackPacket cfg (tagOf (hd ?full)) 0) 16 ?s' = Inr (OK, ?s', [])"
      unfolding parseTSFB_single h using nf(2) [of ?s'] by auto
    show ?thesis
      using True h tq ev nf(1) [of _ ?s'] single by (simp only: if_True) blast
  qed
  have ex: "\<exists>q. int32Data q = mRTPSeqNo s \<and> map payloadOf (snd ?r) = [contents q]
                 \<and> capacity q = capacity (mTSQueue s)
                 \<and> (if length (mHistory s) + 1 > kMaxHistoryLength cfg
                     then mHistory ?s' = tl (mHistory s @ [q])
                        \<and> mTSQueue ?s' = (hd (mHistory s @ [q]))\<lparr>bsize := 12\<rparr>
                        \<and> tagOf (hd (mHistory s @ [q])) \<notin> tagOf ` set (mHistory ?s')
                        \<and> (\<forall>blp. \<exists>blp' s'' out'.
                              scanHistory (tagOf (hd (mHistory s @ [q]))) (mHistory ?s') blp False ?s'
                                = (blp', False, s'', out'))
                        \<and> parseTSFB cfg (nackPacket cfg (tagOf (hd (mHistory s @ [q]))) 0) 16 ?s'
                             = Inr (OK, ?s', [])
                     else mHistory ?s' = mHistory s @ [q]
                        \<and> mTSQueue ?s' = (new_ABuffer (12 + kMaxNumTSPacketsPerRTPPacket * 188))\<lparr>bsize := 12\<rparr>)"
    apply (rule exI [of _ ?q])
    apply (intro conjI)
       apply simp
      apply (rule out)
     apply (rule capq)
    apply (rule branch)
    done
  show ?thesis
    unfolding run
    apply (simp only: sum.case prod.case)
    apply (intro conjI)
       apply (rule inv')
      apply (rule bound)
     apply (rule hl)
    apply (rule ex)
    done
qed

section \<open>The history after two flushes, as an example\<close>

lemma twoFlushed_summary:
  "historySummary twoFlushed = ((12, 1328), (2, 2), [(0, 388, 1328), (1, 200, 1328)])"
  by code_simp

lemma twoFlushed_eval:
  "queueInv twoFlushed" "historyInv exampleConfig twoFlushed"
  "bsize (mTSQueue twoFlushed) + 188 \<le> capacity (mTSQueue twoFlushed)"
  "map tagOf (mHistory twoFlushed) = [0, 1]"
  "list_all bufferOk (mHistory twoFlushed)"
proof -
  from twoFlushed_summary have q: "bsize (mTSQueue twoFlushed) = 12" "capacity (mTSQueue twoFlushed) = 1328"
    and l: "mHistoryLength twoFlushed = 2" "mRTPSeqNo twoFlushed = 2"
    and m: "map (\<lambda>b. (int32Data b, bsize b, capacity b)) (mHistory twoFlushed)
              = [(0, 388, 1328), (1, 200, 1328)]"
    by (simp_all add: historySummary_def)
  from m obtain b0 b1 where h: "mHistory twoFlushed = [b0, b1]"
    and b0: "int32Data b0 = 0" "bsize b0 = 388" "capacity b0 = 1328"
    and b1: "int32Data b1 = 1" "bsize b1 = 200" "capacity b1 = 1328"
    by (auto simp: map_eq_Cons_conv)
  show "queueInv twoFlushed"
    using q h b0 b1 by (simp add: queueInv_def queue_ok_def tsQueueCapacity_eq)
  show "bsize (mTSQueue twoFlushed) + 188 \<le> capacity (mTSQueue twoFlushed)"
    using q by simp
  show "map tagOf (mHistory twoFlushed) = [0, 1]"
    using h b0 b1 by (simp add: tagOf_ucast)
  show "list_all bufferOk (mHistory twoFlushed)"
    using h b0 b1 by (simp add: bufferOk_def capacity_def)
  have "[0..<2] = [0, Suc 0]" by (simp add: upt_rec)
  then show "historyInv exampleConfig twoFlushed"
    using h b0 b1 l by (simp add: historyInv_def consecutiveTags_def bufferOk_def capacity_def exampleConfig_def)
qed

lemma bitRequested_example: "\<not> bitRequested 0 1 0" "bitRequested 0 1 1"
  by code_simp+

lemma twoEntryNack_entries: "nackEntries twoEntryNack 20 = [(1, 0), (0, 1)]"
  by code_simp

theorem nack_entry_retransmissions_witness:
  "distinct (map tagOf (mHistory twoFlushed)) \<and> list_all bufferOk (mHistory twoFlushed)
   \<and> (twoEntryNack ! 0) AND 0x1f = 1 \<and> 12 \<le> length twoEntryNack
   \<and> U32_AT (drop 8 twoEntryNack) = kSourceID exampleConfig
   \<and> 20 \<le> length twoEntryNack \<and> (20 :: nat) mod 4 = 0
   \<and> nackEntries twoEntryNack 20 = [(1, 0), (0, 1)]
   \<and> 0 < length (nackEntries twoEntryNack 20) \<and> nackEntries twoEntryNack 20 ! 0 = (1, 0)
   \<and> 1 < length (nackEntries twoEntryNack 20) \<and> nackEntries twoEntryNack 20 ! 1 = (0, 1)
   \<and> 1 \<in> tagOf ` set (mHistory twoFlushed) \<and> 0 \<in> tagOf ` set (mHistory twoFlushed)
   \<and> (\<exists>out1 out2.
         parseTSFB exampleConfig twoEntryNack 20 twoFlushed
           = Inr (OK, twoFlushed\<lparr>mRTPRetransmissionSeqNo := mRTPRetransmissionSeqNo twoFlushed + 3\<rparr>,
                  out1 @ out2)
         \<and> length out1 = 1 \<and> length out2 = 2
         \<and> (\<exists>pkt. out1 ! 0 = SendRequest (mRTPRetransmissionSessionID twoFlushed) pkt
               \<and> U16_AT (drop 2 pkt) = ucast (mRTPRetransmissionSeqNo twoFlushed)
               \<and> U16_AT (drop 12 pkt) = 1)
         \<and> (\<exists>pkt. out2 ! 0 = SendRequest (mRTPRetransmissionSessionID twoFlushed) pkt
               \<and> U16_AT (drop 2 pkt) = ucast (mRTPRetransmissionSeqNo twoFlushed) + 1
               \<and> U16_AT (drop 12 pkt) = 0)
         \<and> (\<exists>pkt. out2 ! 1 = SendRequest (mRTPRetransmissionSessionID twoFlushed) pkt
               \<and> U16_AT (drop 2 pkt) = ucast (mRTPRetransmissionSeqNo twoFlushed) + 2
               \<and> U16_AT (drop 12 pkt) = 1))"
proof -
  let ?s = twoFlushed
  obtain b0 b1 where h: "mHistory ?s = [b0, b1]" and tg: "tagOf b0 = 0" "tagOf b1 = 1"
    using twoFlushed_eval(4) by (auto simp: map_eq_Cons_conv)
  have h1: "distinct (map tagOf (mHistory ?s))" unfolding twoFlushed_eval(4) by simp
  have h2: "list_all bufferOk (mHistory ?s)" by (rule twoFlushed_eval)
  have h3: "(twoEntryNack ! 0) AND 0x1f = 1" "12 \<le> length twoEntryNack"
    "U32_AT (drop 8 twoEntryNack) = kSourceID exampleConfig"
    "20 \<le> length twoEntryNack" "(20 :: nat) mod 4 = 0"
    by (simp_all add: twoEntryNack_def U32_AT_def exampleConfig_def)
  have es: "nackEntries twoEntryNack 20 = [(1, 0), (0, 1)]" by (rule twoEntryNack_entries)
  have j0: "0 < length (nackEntries twoEntryNack 20)" "nackEntries twoEntryNack 20 ! 0 = (1, 0)"
    and j1: "1 < length (nackEntries twoEntryNack 20)" "nackEntries twoEntryNack 20 ! 1 = (0, 1)"
    unfolding es by simp_all
  have m: "1 \<in> tagOf ` set (mHistory ?s)" "0 \<in> tagOf ` set (mHistory ?s)"
    unfolding h using tg by simp_all
  have br: "\<not> bitRequested 1 0 0" "\<not> bitRequested 1 0 1" by (rule bitRequested_zero)+
  have f10: "filter (\<lambda>b. bitRequested 1 0 (tagOf b)) (mHistory ?s) = []"
    "filter (\<lambda>b. requested 1 0 (tagOf b)) (mHistory ?s) = [b1]"
    unfolding h using tg br by (simp_all add: requested_def)
  have f01: "filter (\<lambda>b. bitRequested 0 1 (tagOf b)) (mHistory ?s) = [b1]"
    "filter (\<lambda>b. requested 0 1 (tagOf b)) (mHistory ?s) = [b0, b1]"
    unfolding h using tg bitRequested_example by (simp_all add: requested_def)
  have tk: "take 0 (nackEntries twoEntryNack 20) = []" "drop (Suc 0) (nackEntries twoEntryNack 20) = [(0, 1)]"
    "take 1 (nackEntries twoEntryNack 20) = [(1, 0)]" "drop (Suc 1) (nackEntries twoEntryNack 20) = []"
    unfolding es by simp_all
  obtain c0 g0 t0 o0 where sc0: "scanHistory 1 (mHistory ?s) 0 False ?s = (c0, g0, t0, o0)"
    by (metis prod_cases4)
  obtain c1 g1 t1 o1 where sc1: "scanHistory 0 (mHistory t0) 1 False t0 = (c1, g1, t1, o1)"
    by (metis prod_cases4)
  have e: "serveEntries (take 0 (nackEntries twoEntryNack 20)) ?s = (?s, [])"
    "serveEntries (drop (Suc 0) (nackEntries twoEntryNack 20)) t0 = (t1, o1)"
    "serveEntries (take 1 (nackEntries twoEntryNack 20)) ?s = (t0, o0)"
    "serveEntries (drop (Suc 1) (nackEntries twoEntryNack 20)) t1 = (t1, [])"
    unfolding tk by (simp_all add: sc0 sc1)
  note A = nack_entry_retransmissions [OF h1 h2 h3 j0 m(1),
      unfolded e(1) prod.case sc0 e(2) f10, simplified]
  note B = nack_entry_retransmissions [OF h1 h2 h3 j1 m(2),
      unfolded e(3) prod.case sc1 e(4) f01, simplified]
  note c2 = conjunct2
  have l0: "length o0 = 1" using A [THEN c2, THEN c2, THEN conjunct1] by simp
  have p0: "\<exists>pkt. o0 ! 0 = SendRequest (mRTPRetransmissionSessionID ?s) pkt
               \<and> isRetransmissionOf pkt (ucast (mRTPRetransmissionSeqNo ?s)) b1"
    using A [THEN c2, THEN c2, THEN c2, THEN c2, THEN conjunct1, rule_format, of 0] l0 by simp
  have run: "parseTSFB exampleConfig twoEntryNack 20 ?s = Inr (OK, t1, o0 @ o1)"
    by (rule B [THEN conjunct1])
  have l1: "length o1 = 2" using B [THEN c2, THEN c2, THEN c2, THEN conjunct1] by simp
  have t1: "t1 = ?s\<lparr>mRTPRetransmissionSeqNo := mRTPRetransmissionSeqNo ?s + of_nat (length o0) + of_nat (length o1)\<rparr>"
    by (rule B [THEN c2, THEN c2, THEN c2, THEN c2, THEN c2, THEN c2])
  have p1: "\<forall>i<length o1. \<exists>pkt. o1 ! i = SendRequest (mRTPRetransmissionSessionID ?s) pkt
               \<and> isRetransmissionOf pkt (ucast (mRTPRetransmissionSeqNo ?s) + of_nat (length o0) + of_nat i) ([b0, b1] ! i)"
    by (rule B [THEN c2, THEN c2, THEN c2, THEN c2, THEN c2, THEN conjunct1])
  have t1': "t1 = ?s\<lparr>mRTPRetransmissionSeqNo := mRTPRetransmissionSeqNo ?s + 3\<rparr>"
    unfolding t1 l0 l1 by (simp add: add.assoc)
  have q0: "\<exists>pkt. o0 ! 0 = SendRequest (mRTPRetransmissionSessionID ?s) pkt
               \<and> U16_AT (drop 2 pkt) = ucast (mRTPRetransmissionSeqNo ?s)
               \<and> U16_AT (drop 12 pkt) = 1"
    using p0 tg by (auto simp: isRetransmissionOf_def)
  have q1: "\<exists>pkt. o1 ! 0 = SendRequest (mRTPRetransmissionSessionID ?s) pkt
               \<and> U16_AT (drop 2 pkt) = ucast (mRTPRetransmissionSeqNo ?s) + 1
               \<and> U16_AT (drop 12 pkt) = 0"
    using p1 [rule_format, of 0] l0 l1 tg by (auto simp: isRetransmissionOf_def)
  have q2: "\<exists>pkt. o1 ! 1 = SendRequest (mRTPRetransmissionSessionID ?s) pkt
               \<and> U16_AT (drop 2 pkt) = ucast (mRTPRetransmissionSeqNo ?s) + 2
               \<and> U16_AT (drop 12 pkt) = 1"
    using p1 [rule_format, of 1] l0 l1 tg by (auto simp: isRetransmissionOf_def add.assoc)
  have ex: "\<exists>out1 out2.
         parseTSFB exampleConfig twoEntryNack 20 twoFlushed
           = Inr (OK, twoFlushed\<lparr>mRTPRetransmissionSeqNo := mRTPRetransmissionSeqNo twoFlushed + 3\<rparr>,
                  out1 @ out2)
         \<and> length out1 = 1 \<and> length out2 = 2
         \<and> (\<exists>pkt. out1 ! 0 = SendRequest (mRTPRetransmissionSessionID twoFlushed) pkt
               \<and> U16_AT (drop 2 pkt) = ucast (mRTPRetransmissionSeqNo twoFlushed)
               \<and> U16_AT (drop 12 pkt) = 1)
         \<and> (\<exists>pkt. out2 ! 0 = SendRequest (mRTPRetransmissionSessionID twoFlushed) pkt
               \<and> U16_AT (drop 2 pkt) = ucast (mRTPRetransmissionSeqNo twoFlushed) + 1
               \<and> U16_AT (drop 12 pkt) = 0)
         \<and> (\<exists>pkt. out2 ! 1 = SendRequest (mRTPRetransmissionSessionID twoFlushed) pkt
               \<and> U16_AT (drop 2 pkt) = ucast (mRTPRetransmissionSeqNo twoFlushed) + 2
               \<and> U16_AT (drop 12 pkt) = 1)"
    using run [unfolded t1'] l0 l1 q0 q1 q2 by blast
  show ?thesis
    using h1 h2 h3 es j0 j1 m ex by simp
qed

theorem history_bounded_oldest_evicted_witness:
  "ENABLE_RETRANSMISSION exampleConfig \<and> kMaxHistoryLength exampleConfig < 65536
   \<and> queueInv twoFlushed \<and> historyInv exampleConfig twoFlushed
   \<and> bsize (mTSQueue twoFlushed) + 188 \<le> capacity (mTSQueue twoFlushed)
   \<and> 188 \<le> length (replicate 188 (0 :: byte))
   \<and> length (mHistory twoFlushed) + 1 > kMaxHistoryLength exampleConfig
   \<and> (case appendTSData exampleConfig zeroClock (replicate 188 0) 188 True True twoFlushed of
         Inl e \<Rightarrow> False
       | Inr (s', out) \<Rightarrow> length (mHistory s') \<le> 2 \<and> historyInv exampleConfig s'
           \<and> mHistory s' = tl (mHistory twoFlushed) @ [last (mHistory s')])"
proof -
  have c: "ENABLE_RETRANSMISSION exampleConfig" "kMaxHistoryLength exampleConfig < 65536"
    "kMaxHistoryLength exampleConfig = 2"
    by (simp_all add: exampleConfig_def)
  have h3: "queueInv twoFlushed" and h4: "historyInv exampleConfig twoFlushed"
    and h5: "bsize (mTSQueue twoFlushed) + 188 \<le> capacity (mTSQueue twoFlushed)"
    by (rule twoFlushed_eval)+
  have h6: "188 \<le> length (replicate 188 (0 :: byte))" by simp
  have "length (map tagOf (mHistory twoFlushed)) = 2" unfolding twoFlushed_eval(4) by simp
  then have l: "length (mHistory twoFlushed) = 2" by simp
  then have ne: "mHistory twoFlushed \<noteq> []" by auto
  have tlq: "tl (mHistory twoFlushed @ [q]) = tl (mHistory twoFlushed) @ [q]" for q
    using ne by simp
  show ?thesis
    using c h3 h4 h5 h6 l
      history_bounded_oldest_evicted [OF c(1,2) h3 h4 h5 h6, of True zeroClock True]
    by (auto split: sum.splits simp: tlq)
qed

end
